theory Spec2Isabelle
  imports Main
begin

section \<open>Strings\<close>

text \<open>
  Go strings are read as sequences of ASCII characters: a \<open>char\<close> of the model is one
  byte and, on ASCII text, one rune.  The case predicates and case mappings of the Go
  standard library (\<open>unicode.IsUpper\<close>, \<open>strings.ToLower\<close>, \<open>strings.ToUpper\<close>) are
  modelled on the ASCII letters; every other character is caseless.
\<close>

definition code :: "char \<Rightarrow> nat" where
  "code c = of_char c"

definition isUpper :: "char \<Rightarrow> bool" where
  "isUpper c = (65 \<le> code c \<and> code c \<le> 90)"

definition isLower :: "char \<Rightarrow> bool" where
  "isLower c = (97 \<le> code c \<and> code c \<le> 122)"

definition isDigit :: "char \<Rightarrow> bool" where
  "isDigit c = (48 \<le> code c \<and> code c \<le> 57)"

definition toLowerChar :: "char \<Rightarrow> char" where
  "toLowerChar c = (if isUpper c then char_of (code c + 32) else c)"

definition toUpperChar :: "char \<Rightarrow> char" where
  "toUpperChar c = (if isLower c then char_of (code c - 32) else c)"

definition ToLower :: "string \<Rightarrow> string" where
  "ToLower s = map toLowerChar s"

definition ToUpper :: "string \<Rightarrow> string" where
  "ToUpper s = map toUpperChar s"

text \<open>\<open>strings.Join\<close>.\<close>

fun Join :: "string list \<Rightarrow> string \<Rightarrow> string" where
  "Join [] sep = []"
| "Join [w] sep = w"
| "Join (w # v # ws) sep = w @ sep @ Join (v # ws) sep"

text \<open>\<open>strings.HasPrefix\<close>, \<open>strings.HasSuffix\<close>, \<open>strings.Contains\<close>.\<close>

fun HasPrefix :: "string \<Rightarrow> string \<Rightarrow> bool" where
  "HasPrefix s [] = True"
| "HasPrefix [] (p # ps) = False"
| "HasPrefix (c # cs) (p # ps) = (c = p \<and> HasPrefix cs ps)"

definition HasSuffix :: "string \<Rightarrow> string \<Rightarrow> bool" where
  "HasSuffix s suf = HasPrefix (rev s) (rev suf)"

fun Contains :: "string \<Rightarrow> string \<Rightarrow> bool" where
  "Contains [] sub = (sub = [])"
| "Contains (c # cs) sub = (HasPrefix (c # cs) sub \<or> Contains cs sub)"

text \<open>\<open>strings.TrimSpace\<close> on ASCII white space, \<open>strings.Trim(s, "`")\<close>.\<close>

definition isSpace :: "char \<Rightarrow> bool" where
  "isSpace c = (c \<in> {CHR '' '', CHR 0x09, CHR 0x0A, CHR 0x0B, CHR 0x0C, CHR 0x0D})"

definition TrimSpace :: "string \<Rightarrow> string" where
  "TrimSpace s = rev (dropWhile isSpace (rev (dropWhile isSpace s)))"

definition TrimBackquotes :: "string \<Rightarrow> string" where
  "TrimBackquotes s =
     rev (dropWhile (\<lambda>c. c = CHR 0x60) (rev (dropWhile (\<lambda>c. c = CHR 0x60) s)))"

section \<open>Name formatting\<close>

text \<open>\<open>isSeparator\<close>: the word separators \<open>_ - space . /\<close>.\<close>

definition isSeparator :: "char \<Rightarrow> bool" where
  "isSeparator r = (r = CHR ''_'' \<or> r = CHR ''-'' \<or> r = CHR '' '' \<or> r = CHR ''.'' \<or> r = CHR ''/'')"

text \<open>
  \<open>splitIntoWords\<close>: the loop over the runes of \<open>s\<close>.  The state is the list of finished
  words, the word being built and the character before the current one (\<open>s[i-1]\<close>, which
  the source reads only when the current word is not empty, hence never at \<open>i = 0\<close>).
\<close>

fun splitLoop :: "string list \<Rightarrow> string \<Rightarrow> char \<Rightarrow> string \<Rightarrow> string list" where
  "splitLoop words cur prev [] = (if cur \<noteq> [] then words @ [cur] else words)"
| "splitLoop words cur prev (r # rs) =
     (if isSeparator r then
        (if cur \<noteq> [] then splitLoop (words @ [cur]) [] r rs
         else splitLoop words cur r rs)
      else if isUpper r then
        (if cur \<noteq> [] \<and> \<not> isUpper prev then splitLoop (words @ [cur]) [r] r rs
         else splitLoop words (cur @ [r]) r rs)
      else splitLoop words (cur @ [r]) r rs)"

definition splitIntoWords :: "string \<Rightarrow> string list" where
  "splitIntoWords s = (if s = [] then [] else splitLoop [] [] (CHR 0x00) s)"

text \<open>
  \<open>cases.Title(language.Und, cases.NoLower).String\<close> of golang.org/x/text, on ASCII.
  The caser walks the string with one flag, "inside a word": a cased character outside a
  word is upper-cased and opens a word, a cased character inside a word is copied
  (\<open>NoLower\<close>), an uncased character is copied and closes the word when it is a word
  break.  Letters, digits and the underscore never break a word; apostrophe, colon and
  full stop are mid-word punctuation, which breaks only when doubled; every other
  character breaks.
\<close>

definition isCased :: "char \<Rightarrow> bool" where
  "isCased c = (isUpper c \<or> isLower c)"

definition isMid :: "char \<Rightarrow> bool" where
  "isMid c = (c = CHR 0x27 \<or> c = CHR '':'' \<or> c = CHR ''.'')"

definition isBreak :: "char \<Rightarrow> bool" where
  "isBreak c = (\<not> isCased c \<and> \<not> isDigit c \<and> c \<noteq> CHR ''_'' \<and> \<not> isMid c)"

fun titleLoop :: "bool \<Rightarrow> string \<Rightarrow> string" where
  "titleLoop mid [] = []"
| "titleLoop mid (c # cs) =
     (let out = (if isCased c \<and> \<not> mid then toUpperChar c else c);
          mid1 = (if isCased c then True else if isBreak c then False else mid);
          mid2 = (case cs of [] \<Rightarrow> mid1 | d # _ \<Rightarrow> if isMid c \<and> isMid d then False else mid1)
      in out # titleLoop mid2 cs)"

definition Title :: "string \<Rightarrow> string" where
  "Title s = titleLoop False s"

text \<open>\<open>arrayToCamelCase\<close>, \<open>toCamelCase\<close>, \<open>arrayToPascalCase\<close>, \<open>toPascalCase\<close>.\<close>

definition arrayToCamelCase :: "string list \<Rightarrow> string" where
  "arrayToCamelCase words =
     (case words of
        [] \<Rightarrow> []
      | w # ws \<Rightarrow> ToLower w @ concat (map (\<lambda>v. Title (ToLower v)) (filter (\<lambda>v. v \<noteq> []) ws)))"

definition toCamelCase :: "string \<Rightarrow> string" where
  "toCamelCase s = (if s = [] then s else arrayToCamelCase (splitIntoWords s))"

definition arrayToPascalCase :: "string list \<Rightarrow> string" where
  "arrayToPascalCase words =
     (if words = [] then []
      else concat (map (\<lambda>v. Title (ToLower v)) (filter (\<lambda>v. v \<noteq> []) words)))"

definition toPascalCase :: "string \<Rightarrow> string" where
  "toPascalCase s = (if s = [] then s else arrayToPascalCase (splitIntoWords s))"

text \<open>The string-typed enumerations of the configuration.\<close>

type_synonym ConstantFormatType = string
type_synonym TransformCaseType = string
type_synonym InputModeType = string
type_synonym OutputModeType = string

definition ConstantFormatCamel :: ConstantFormatType where "ConstantFormatCamel = ''camel''"
definition ConstantFormatPascal :: ConstantFormatType where "ConstantFormatPascal = ''pascal''"
definition ConstantFormatSnake :: ConstantFormatType where "ConstantFormatSnake = ''snake''"
definition ConstantFormatSnakeUpper :: ConstantFormatType where
  "ConstantFormatSnakeUpper = ''snakeUpper''"

definition TransformCaseAsIs :: TransformCaseType where "TransformCaseAsIs = ''asIs''"
definition TransformCaseCamel :: TransformCaseType where "TransformCaseCamel = ''camel''"
definition TransformCasePascal :: TransformCaseType where "TransformCasePascal = ''pascal''"
definition TransformCaseUpper :: TransformCaseType where "TransformCaseUpper = ''upper''"
definition TransformCaseLower :: TransformCaseType where "TransformCaseLower = ''lower''"

definition InputModeTypeTagThenField :: InputModeType where
  "InputModeTypeTagThenField = ''tagThenField''"
definition InputModeTypeField :: InputModeType where "InputModeTypeField = ''field''"
definition InputModeTypeTag :: InputModeType where "InputModeTypeTag = ''tag''"

definition OutputModeNone :: OutputModeType where "OutputModeNone = ''none''"
definition OutputModeStruct :: OutputModeType where "OutputModeStruct = ''struct''"
definition OutputModeConstant :: OutputModeType where "OutputModeConstant = ''constant''"

text \<open>\<open>buildName\<close>: the non-empty parts joined by a space, then formatted.\<close>

definition buildName ::
  "string \<Rightarrow> string \<Rightarrow> string \<Rightarrow> string \<Rightarrow> ConstantFormatType \<Rightarrow> string" where
  "buildName prefix mid mid2 suffix fmtType =
     (let parts = filter (\<lambda>p. p \<noteq> []) [prefix, mid, mid2, suffix];
          base = Join parts '' ''
      in if fmtType = ConstantFormatCamel then toCamelCase base
         else if fmtType = ConstantFormatPascal then toPascalCase base
         else if fmtType = ConstantFormatSnake then ToLower (Join (splitIntoWords base) ''_'')
         else if fmtType = ConstantFormatSnakeUpper then ToUpper (Join (splitIntoWords base) ''_'')
         else toPascalCase base)"

text \<open>\<open>transformFieldValue\<close>: normalise to words, apply the case, rejoin.\<close>

definition transformFieldValue :: "string \<Rightarrow> TransformCaseType \<Rightarrow> string \<Rightarrow> string" where
  "transformFieldValue value0 caseType sep =
     (let value1 = (if sep \<noteq> [] \<and> caseType \<noteq> TransformCaseAsIs
                    then Join (splitIntoWords value0) '' '' else value0);
          value2 = (if caseType = TransformCaseAsIs then value1
                    else if caseType = TransformCaseCamel then toCamelCase value1
                    else if caseType = TransformCasePascal then toPascalCase value1
                    else if caseType = TransformCaseUpper then ToUpper value1
                    else if caseType = TransformCaseLower then ToLower value1
                    else value1)
      in if sep \<noteq> [] then Join (splitIntoWords value2) sep else value2)"


section \<open>Configuration\<close>

text \<open>
  The configuration structs of \<open>config.go\<close>.  Pointer-typed booleans are options
  (\<open>None\<close> is \<open>nil\<close>).  Field names carry a prefix where two structs share one.
\<close>

record ConfigInputStruct =
  Explicit :: "bool option"
  IncludeUnexported :: "bool option"

record ConfigInputField =
  FieldExplicit :: "bool option"
  FieldIncludeUnexported :: "bool option"

record ConfigInput =
  Include :: "string list"
  Exclude :: "string list"
  Dir :: string
  Struct :: ConfigInputStruct
  Field :: ConfigInputField

record ConfigTagInput =
  Mode :: InputModeType
  TagPriority :: "string list"

record ConfigTagOutputFormat =
  Holder :: ConstantFormatType
  StructFormat :: ConstantFormatType
  Prefix :: string
  Suffix :: string

record ConfigTagOutputTransform =
  TagValues :: "bool option"
  ValueCase :: TransformCaseType
  ValueSeparator :: string

record ConfigTagOutput =
  OutputMode :: OutputModeType
  Format :: ConfigTagOutputFormat
  Transform :: ConfigTagOutputTransform

record ConfigTag =
  ElementName :: string
  ElementInput :: ConfigTagInput
  ElementOutput :: ConfigTagOutput

record ConfigGetterOutput =
  GetterPrefix :: string
  GetterSuffix :: string
  GetterFormat :: ConstantFormatType

record ConfigGetter =
  GetterName :: string
  Returns :: "string list"
  GetterOutput :: ConfigGetterOutput

record Config =
  Input :: ConfigInput
  Elements :: "ConfigTag list"
  Getters :: "ConfigGetter list"

definition isExplicit :: "ConfigInputStruct \<Rightarrow> bool" where
  "isExplicit c = (case Explicit c of None \<Rightarrow> False | Some b \<Rightarrow> b)"

definition isIncludeUnexported :: "ConfigInputStruct \<Rightarrow> bool" where
  "isIncludeUnexported c = (case IncludeUnexported c of None \<Rightarrow> False | Some b \<Rightarrow> b)"

definition isExplicitField :: "ConfigInputField \<Rightarrow> bool" where
  "isExplicitField c = (case FieldExplicit c of None \<Rightarrow> False | Some b \<Rightarrow> b)"

definition isIncludeUnexportedField :: "ConfigInputField \<Rightarrow> bool" where
  "isIncludeUnexportedField c = (case FieldIncludeUnexported c of None \<Rightarrow> False | Some b \<Rightarrow> b)"

section \<open>Parsed declarations\<close>

text \<open>
  The scanner reads the syntax tree that \<open>go/parser\<close> returns; the tree is input data of
  the model.  A \<open>Field\<close> is one \<open>ast.Field\<close>: its names (none for an embedded field), its
  raw tag literal (\<open>None\<close> when the field has no tag) and, for its type expression, the
  type name and the owning package (import path and package name) that
  \<open>extractTypeInfo\<close> and the import-index fallbacks of \<open>createValueOutput\<close> resolve;
  \<open>FieldType = None\<close> is a field without a type expression.  A \<open>StructDecl\<close> is one
  type specification with a struct type, in the order \<open>ast.Inspect\<close> visits them: the
  comment texts of the declaration's and of the specification's doc groups, the name, the
  line of the specification and the field list.
\<close>

record Field =
  Names :: "string list"
  Tag :: "string option"
  FieldType :: "(string \<times> (string \<times> string) option) option"

record StructDecl =
  DeclDoc :: "string list"
  SpecDoc :: "string list"
  StructName :: string
  StructLine :: int
  Fields :: "Field list"

text \<open>
  \<open>ast.IsExported\<close> belongs to the Go standard library: it decodes the first rune of the
  name and asks \<open>unicode.IsUpper\<close>.  The model takes it as the parameter \<open>exported\<close>.
\<close>

type_synonym ExportTest = "string \<Rightarrow> bool"

section \<open>The model\<close>

text \<open>
  The output structs of \<open>model.go\<close>.  A \<open>TypePackageOutput\<close> is the one object of the
  model that is shared and mutated:  a \<open>ValueOutput\<close> and the \<open>Imports\<close> map of a package
  point to the same object, and \<open>AddStruct\<close> writes its \<open>Alias\<close>.  These objects live in
  a heap, a list indexed by address; \<open>alloc\<close> is \<open>&TypePackageOutput{...}\<close>.  All other
  pointers of the source refer to objects that are never changed after they are shared
  and are held by value.  In a \<open>ReturnOutput\<close> a \<open>nil\<close> pointer is \<open>None\<close>.
\<close>

record TypePackageOutput =
  Path :: string
  Name :: string
  Alias :: string

type_synonym addr = nat
type_synonym heap = "TypePackageOutput list"

definition alloc :: "heap \<Rightarrow> TypePackageOutput \<Rightarrow> addr \<times> heap" where
  "alloc h v = (length h, h @ [v])"

record ConstantOutput =
  ConstantName :: string
  ConstantValue :: string

record FieldOutput =
  FieldStructName :: string
  FieldOutputName :: string
  FieldValue :: string

record NoneOutput =
  NoneName :: string
  NoneValue :: string

record StructOutput =
  StructOutputName :: string
  StructOutputPackage :: string
  StructOutputFields :: "FieldOutput list"

record ValueOutput =
  FieldName :: string
  TypeName :: string
  TypePackage :: addr

record ReturnOutput =
  ReturnField :: "FieldOutput option"
  ReturnConstant :: "ConstantOutput option"
  ReturnNone :: "NoneOutput option"
  ReturnValue :: "ValueOutput option"

record GetterOutput =
  GetterOutputName :: string
  GetterReturns :: "ReturnOutput list"

record StructModel =
  StructModelName :: string
  File :: string
  LineNumber :: int
  Constants :: "ConstantOutput list"
  Structs :: "StructOutput list"
  StructGetters :: "GetterOutput list"

record PackageModel =
  PackageName :: string
  PackagePath :: string
  Imports :: "string \<rightharpoonup> addr"
  PackageStructs :: "StructModel list"

record ScanError =
  ErrorFile :: string
  ErrorLine :: int
  Message :: string

record Model =
  Packages :: "string \<rightharpoonup> PackageModel"
  FilesScanned :: int
  PackagesFound :: int
  StructsFound :: int
  FieldsFound :: int
  Errors :: "ScanError list"

definition NewModel :: Model where
  "NewModel = \<lparr>Packages = Map.empty, FilesScanned = 0, PackagesFound = 0, StructsFound = 0,
               FieldsFound = 0, Errors = []\<rparr>"

definition AddError :: "Model \<Rightarrow> string \<Rightarrow> int \<Rightarrow> string \<Rightarrow> Model" where
  "AddError m file line message =
     m\<lparr>Errors := Errors m @ [\<lparr>ErrorFile = file, ErrorLine = line, Message = message\<rparr>]\<rparr>"

section \<open>The aggregator\<close>

text \<open>
  \<open>setRecursiveAlias\<close>, the closure inside \<open>AddStruct\<close>.  It ranges over the \<open>Imports\<close>
  map of the package, and Go leaves the order of a range over a map unspecified: each
  call may visit the keys in any order, each key once.  The model is therefore a
  relation between the heap before and the heap after; \<open>rangeImports\<close> is the loop over
  the keys still to visit.  The \<open>level\<close> argument of the source is only passed on and is
  left out.  No rule applies at a dangling address (a \<open>nil\<close> dereference).
\<close>

inductive setRecursiveAlias :: "heap \<Rightarrow> (string \<rightharpoonup> addr) \<Rightarrow> addr \<Rightarrow> string \<Rightarrow> heap \<Rightarrow> bool"
  and rangeImports :: "heap \<Rightarrow> (string \<rightharpoonup> addr) \<Rightarrow> addr \<Rightarrow> string \<Rightarrow> string list \<Rightarrow> heap \<Rightarrow> bool"
where
  range_order:
    "distinct ks \<Longrightarrow> set ks = dom imports \<Longrightarrow>
     rangeImports h imports currentImport currentNameOrAlias ks h' \<Longrightarrow>
     setRecursiveAlias h imports currentImport currentNameOrAlias h'"
| range_done:
    "rangeImports h imports currentImport currentNameOrAlias [] h"
| range_collision:
    "imports k = Some imp \<Longrightarrow> imp < length h \<Longrightarrow> currentImport < length h \<Longrightarrow>
     Path (h ! imp) \<noteq> Path (h ! currentImport) \<and>
       (Name (h ! imp) = currentNameOrAlias \<or> Alias (h ! imp) = currentNameOrAlias) \<Longrightarrow>
     setRecursiveAlias
       (h[currentImport := (h ! currentImport)\<lparr>Alias := CHR ''_'' # currentNameOrAlias\<rparr>])
       imports currentImport (CHR ''_'' # currentNameOrAlias) h1 \<Longrightarrow>
     rangeImports h1 imports currentImport currentNameOrAlias ks h' \<Longrightarrow>
     rangeImports h imports currentImport currentNameOrAlias (k # ks) h'"
| range_no_collision:
    "imports k = Some imp \<Longrightarrow> imp < length h \<Longrightarrow> currentImport < length h \<Longrightarrow>
     \<not> (Path (h ! imp) \<noteq> Path (h ! currentImport) \<and>
        (Name (h ! imp) = currentNameOrAlias \<or> Alias (h ! imp) = currentNameOrAlias)) \<Longrightarrow>
     rangeImports h imports currentImport currentNameOrAlias ks h' \<Longrightarrow>
     rangeImports h imports currentImport currentNameOrAlias (k # ks) h'"

text \<open>
  The loops of \<open>AddStruct\<close> over the getters of the struct and over the returns of each
  getter, as one loop over the returns in that order: a return with a value whose
  package path is not yet a key of \<open>Imports\<close> is registered and renamed.
\<close>

inductive registerImports ::
  "heap \<Rightarrow> (string \<rightharpoonup> addr) \<Rightarrow> ReturnOutput list \<Rightarrow> heap \<Rightarrow> (string \<rightharpoonup> addr) \<Rightarrow> bool"
where
  register_done:
    "registerImports h imports [] h imports"
| register_no_value:
    "ReturnValue r = None \<Longrightarrow> registerImports h imports rs h' imports' \<Longrightarrow>
     registerImports h imports (r # rs) h' imports'"
| register_exists:
    "ReturnValue r = Some v \<Longrightarrow> TypePackage v < length h \<Longrightarrow>
     imports (Path (h ! TypePackage v)) \<noteq> None \<Longrightarrow>
     registerImports h imports rs h' imports' \<Longrightarrow>
     registerImports h imports (r # rs) h' imports'"
| register_new:
    "ReturnValue r = Some v \<Longrightarrow> TypePackage v < length h \<Longrightarrow>
     imports (Path (h ! TypePackage v)) = None \<Longrightarrow>
     imports1 = imports(Path (h ! TypePackage v) \<mapsto> TypePackage v) \<Longrightarrow>
     setRecursiveAlias h imports1 (TypePackage v) (Name (h ! TypePackage v)) h1 \<Longrightarrow>
     registerImports h1 imports1 rs h' imports' \<Longrightarrow>
     registerImports h imports (r # rs) h' imports'"

definition structReturns :: "StructModel \<Rightarrow> ReturnOutput list" where
  "structReturns structModel = concat (map GetterReturns (StructGetters structModel))"

text \<open>\<open>AddStruct\<close>: the package is created on first use, then the imports, then the struct.\<close>

definition ensurePackage :: "Model \<Rightarrow> string \<Rightarrow> string \<Rightarrow> PackageModel \<times> Model" where
  "ensurePackage m packagePath packageName =
     (case Packages m packagePath of
        Some pkg \<Rightarrow> (pkg, m)
      | None \<Rightarrow>
          (let pkg = \<lparr>PackageName = packageName, PackagePath = packagePath,
                      Imports = Map.empty, PackageStructs = []\<rparr>
           in (pkg, m\<lparr>Packages := (Packages m)(packagePath \<mapsto> pkg),
                     PackagesFound := PackagesFound m + 1\<rparr>)))"

inductive AddStruct ::
  "heap \<times> Model \<Rightarrow> string \<Rightarrow> string \<Rightarrow> StructModel \<Rightarrow> heap \<times> Model \<Rightarrow> bool"
where
  add_struct:
    "ensurePackage m packagePath packageName = (pkg, m1) \<Longrightarrow>
     registerImports h (Imports pkg) (structReturns structModel) h' imports' \<Longrightarrow>
     pkg' = pkg\<lparr>Imports := imports', PackageStructs := PackageStructs pkg @ [structModel]\<rparr> \<Longrightarrow>
     AddStruct (h, m) packagePath packageName structModel
       (h', m1\<lparr>Packages := (Packages m1)(packagePath \<mapsto> pkg'),
               StructsFound := StructsFound m1 + 1\<rparr>)"

section \<open>Inclusion policy\<close>

text \<open>
  \<open>structDirectives\<close>: \<open>checkCommentGroup\<close> on the declaration's doc group, then on the
  specification's; each comment can only switch a flag on.
\<close>

definition checkCommentGroup :: "string list \<Rightarrow> bool \<times> bool \<Rightarrow> bool \<times> bool" where
  "checkCommentGroup cg flags =
     foldl (\<lambda>(hasInclude, hasExclude) c.
              let txt = TrimSpace c
              in (hasInclude \<or> Contains txt ''constago:include'',
                  hasExclude \<or> Contains txt ''constago:exclude''))
           flags cg"

definition structDirectives :: "StructDecl \<Rightarrow> bool \<times> bool" where
  "structDirectives d = checkCommentGroup (SpecDoc d) (checkCommentGroup (DeclDoc d) (False, False))"

text \<open>
  \<open>mustIncludeStruct\<close> returns its verdict and the model, to which it has appended an
  error when both directives are present.
\<close>

definition mustIncludeStruct ::
  "ExportTest \<Rightarrow> Config \<Rightarrow> Model \<Rightarrow> StructDecl \<Rightarrow> string \<Rightarrow> bool \<times> Model" where
  "mustIncludeStruct exported config m d filePath =
     (let (includeDirective, excludeDirective) = structDirectives d
      in if includeDirective \<and> excludeDirective
         then (False, AddError m filePath (StructLine d)
                        ''struct has both include and exclude directives'')
         else if excludeDirective \<or> (isExplicit (Struct (Input config)) \<and> \<not> includeDirective)
              then (False, m)
         else if \<not> includeDirective \<and> \<not> isIncludeUnexported (Struct (Input config))
                 \<and> \<not> exported (StructName d)
              then (False, m)
         else (True, m))"

text \<open>
  Tags.  \<open>reflect.StructTag.Get\<close> belongs to the Go standard library; the model takes it
  as the parameter \<open>get\<close> (tag text, key, value found or the empty string).
  \<open>lookupTag\<close> treats a blank value as absent.
\<close>

type_synonym TagGet = "string \<Rightarrow> string \<Rightarrow> string"

definition lookupTag :: "TagGet \<Rightarrow> string \<Rightarrow> string \<Rightarrow> string \<times> bool" where
  "lookupTag get tags key =
     (let v = get tags key in if TrimSpace v = [] then ([], False) else (v, True))"

text \<open>The tag text of a field: the tag literal without its back quotes, empty without a tag.\<close>

definition fieldTagText :: "Field \<Rightarrow> string" where
  "fieldTagText field = (case Tag field of None \<Rightarrow> [] | Some t \<Rightarrow> TrimBackquotes t)"

definition mustIncludeField :: "ExportTest \<Rightarrow> TagGet \<Rightarrow> Config \<Rightarrow> Field \<Rightarrow> bool" where
  "mustIncludeField exported get config field =
     (let tag = fieldTagText field;
          (constagoTag, hasConstago) = lookupTag get tag ''constago''
      in if hasConstago \<and> constagoTag = ''exclude'' then False
         else if hasConstago \<and> constagoTag = ''include'' then True
         else if isExplicitField (Field (Input config)) \<and> \<not> hasConstago then False
         else if \<not> isIncludeUnexportedField (Field (Input config)) \<and> length (Names field) > 0
                 \<and> \<not> exported (Names field ! 0)
              then False
         else True)"


section \<open>Value engine\<close>

text \<open>
  \<open>computeElementValue\<close>.  \<open>getFromTags\<close> walks the tag priority list: the pseudo-key
  \<open>:field\<close> yields the field name, a key with a non-blank value yields the value up to
  its first comma.
\<close>

fun getFromTagsLoop :: "TagGet \<Rightarrow> string \<Rightarrow> string \<Rightarrow> string list \<Rightarrow> string \<times> bool" where
  "getFromTagsLoop get fieldName tags [] = ([], False)"
| "getFromTagsLoop get fieldName tags (key # keys) =
     (if key = '':field'' then (fieldName, True)
      else (case lookupTag get tags key of
              (v, True) \<Rightarrow> (takeWhile (\<lambda>c. c \<noteq> CHR '','') v, True)
            | (v, False) \<Rightarrow> getFromTagsLoop get fieldName tags keys))"

definition getFromTags :: "TagGet \<Rightarrow> string \<Rightarrow> string \<Rightarrow> ConfigTag \<Rightarrow> string \<times> bool" where
  "getFromTags get fieldName tagText el =
     (if tagText = [] then ([], False)
      else getFromTagsLoop get fieldName tagText (TagPriority (ElementInput el)))"

definition applyTransform :: "string \<Rightarrow> ConfigTag \<Rightarrow> string" where
  "applyTransform s cfg =
     transformFieldValue s (ValueCase (Transform (ElementOutput cfg)))
       (ValueSeparator (Transform (ElementOutput cfg)))"

definition tagValue :: "string \<Rightarrow> ConfigTag \<Rightarrow> string" where
  "tagValue v el =
     (if TagValues (Transform (ElementOutput el)) = Some True then applyTransform v el else v)"

definition computeElementValue :: "TagGet \<Rightarrow> string \<Rightarrow> string \<Rightarrow> ConfigTag \<Rightarrow> string" where
  "computeElementValue get fieldName tagText el =
     (if Mode (ElementInput el) = InputModeTypeTag then
        (case getFromTags get fieldName tagText el of
           (v, True) \<Rightarrow> tagValue v el
         | (v, False) \<Rightarrow> [])
      else if Mode (ElementInput el) = InputModeTypeField then applyTransform fieldName el
      else if Mode (ElementInput el) = InputModeTypeTagThenField then
        (case getFromTags get fieldName tagText el of
           (v, True) \<Rightarrow> tagValue v el
         | (v, False) \<Rightarrow> applyTransform fieldName el)
      else [])"

section \<open>Scanning one struct\<close>

text \<open>
  The caches of \<open>scanFile\<close> are maps from a field name to a map from an element name; a
  lookup in a missing inner map finds nothing, a store creates the inner map.
\<close>

type_synonym 'a cache = "string \<rightharpoonup> (string \<rightharpoonup> 'a)"

definition lookup2 :: "'a cache \<Rightarrow> string \<Rightarrow> string \<Rightarrow> 'a option" where
  "lookup2 c fieldName elementName =
     (case c fieldName of None \<Rightarrow> None | Some inner \<Rightarrow> inner elementName)"

definition store2 :: "'a cache \<Rightarrow> string \<Rightarrow> string \<Rightarrow> 'a \<Rightarrow> 'a cache" where
  "store2 c fieldName elementName x =
     c(fieldName \<mapsto> (case c fieldName of None \<Rightarrow> Map.empty | Some inner \<Rightarrow> inner)(elementName \<mapsto> x))"

text \<open>
  The state of the loop over the fields of one struct: the struct model under
  construction and the four caches.  \<open>structByElement\<close> points into the \<open>Structs\<close> list of
  the struct model (the source keeps a pointer to the same \<open>StructOutput\<close> in both).
\<close>

record StructScan =
  structModel :: StructModel
  constantsByFieldAndElement :: "ConstantOutput cache"
  noneByFieldAndElement :: "NoneOutput cache"
  structByElement :: "string \<rightharpoonup> nat"
  structFieldByFieldAndElement :: "FieldOutput cache"

definition newStructScan :: "StructDecl \<Rightarrow> string \<Rightarrow> StructScan" where
  "newStructScan d filePath =
     \<lparr>structModel = \<lparr>StructModelName = StructName d, File = filePath, LineNumber = StructLine d,
                      Constants = [], Structs = [], StructGetters = []\<rparr>,
      constantsByFieldAndElement = Map.empty, noneByFieldAndElement = Map.empty,
      structByElement = Map.empty, structFieldByFieldAndElement = Map.empty\<rparr>"

text \<open>The body of the loop over the configured elements, for one field name.\<close>

definition buildElement ::
  "TagGet \<Rightarrow> string \<Rightarrow> string \<Rightarrow> string \<Rightarrow> StructScan \<Rightarrow> ConfigTag \<Rightarrow> StructScan" where
  "buildElement get packageName fieldName tagText sc el =
     (let val = computeElementValue get fieldName tagText el;
          sm = structModel sc;
          fmt = Format (ElementOutput el)
      in if val = [] then sc
         else if OutputMode (ElementOutput el) = OutputModeConstant then
           (let constName = buildName (Prefix fmt) (StructModelName sm) fieldName (Suffix fmt)
                              (StructFormat fmt);
                c = \<lparr>ConstantName = constName, ConstantValue = val\<rparr>
            in sc\<lparr>structModel := sm\<lparr>Constants := Constants sm @ [c]\<rparr>,
                  constantsByFieldAndElement :=
                    store2 (constantsByFieldAndElement sc) fieldName (ElementName el) c\<rparr>)
         else if OutputMode (ElementOutput el) = OutputModeStruct then
           (let (i, sc1) =
                  (case structByElement sc (ElementName el) of
                     Some i \<Rightarrow> (i, sc)
                   | None \<Rightarrow>
                       (let structName = buildName (Prefix fmt) (StructModelName sm) [] (Suffix fmt)
                                           (StructFormat fmt);
                            so = \<lparr>StructOutputName = structName, StructOutputPackage = packageName,
                                  StructOutputFields = []\<rparr>
                        in (length (Structs sm),
                            sc\<lparr>structModel := sm\<lparr>Structs := Structs sm @ [so]\<rparr>,
                               structByElement :=
                                 (structByElement sc)(ElementName el \<mapsto> length (Structs sm))\<rparr>)));
                sm1 = structModel sc1;
                so = Structs sm1 ! i;
                fieldConstName = buildName [] fieldName [] [] (Holder fmt);
                fieldOutput = \<lparr>FieldStructName = StructOutputName so,
                               FieldOutputName = fieldConstName, FieldValue = val\<rparr>
            in sc1\<lparr>structModel :=
                     sm1\<lparr>Structs :=
                           (Structs sm1)[i := so\<lparr>StructOutputFields :=
                                                   StructOutputFields so @ [fieldOutput]\<rparr>]\<rparr>,
                   structFieldByFieldAndElement :=
                     store2 (structFieldByFieldAndElement sc1) fieldName (ElementName el)
                       fieldOutput\<rparr>)
         else if OutputMode (ElementOutput el) = OutputModeNone then
           sc\<lparr>noneByFieldAndElement :=
                store2 (noneByFieldAndElement sc) fieldName (ElementName el)
                  \<lparr>NoneName = fieldName, NoneValue = val\<rparr>\<rparr>
         else sc)"

section \<open>Getter assembler\<close>

text \<open>
  \<open>createValueOutput\<close>: nothing for a field without a type or with an empty type name;
  otherwise the value output points to a new package object, the resolved package of the
  type or, for an unqualified type, the current package with an empty path.
\<close>

definition createValueOutput ::
  "heap \<Rightarrow> Field \<Rightarrow> string \<Rightarrow> string \<Rightarrow> heap \<times> ValueOutput option" where
  "createValueOutput h field fieldName packageName =
     (case FieldType field of
        None \<Rightarrow> (h, None)
      | Some (typeName, pkg) \<Rightarrow>
          if typeName = [] then (h, None)
          else (let tp = (case pkg of
                            Some (path, name) \<Rightarrow> \<lparr>Path = path, Name = name, Alias = []\<rparr>
                          | None \<Rightarrow> \<lparr>Path = [], Name = packageName, Alias = []\<rparr>);
                    (a, h') = alloc h tp
                in (h', Some \<lparr>FieldName = fieldName, TypeName = typeName, TypePackage = a\<rparr>)))"

definition emptyReturn :: ReturnOutput where
  "emptyReturn = \<lparr>ReturnField = None, ReturnConstant = None, ReturnNone = None, ReturnValue = None\<rparr>"

text \<open>
  One token of a getter's \<open>Returns\<close>: the heap after it and the returns it appends (one or
  none).  A token that starts with a colon is special; only \<open>:value\<close> produces a return.
  Any other token is looked up among the constants, then the none-values (whose name
  becomes the token), then the struct-accessor fields cached for the field name.
\<close>

definition buildReturn ::
  "StructScan \<Rightarrow> heap \<Rightarrow> Field \<Rightarrow> string \<Rightarrow> string \<Rightarrow> string \<Rightarrow> heap \<times> ReturnOutput list" where
  "buildReturn sc h field fieldName packageName ret =
     (if HasPrefix ret '':'' then
        (if ret = '':value'' then
           (case createValueOutput h field fieldName packageName of
              (h', Some valueOutput) \<Rightarrow> (h', [emptyReturn\<lparr>ReturnValue := Some valueOutput\<rparr>])
            | (h', None) \<Rightarrow> (h', []))
         else (h, []))
      else (case lookup2 (constantsByFieldAndElement sc) fieldName ret of
              Some cm \<Rightarrow> (h, [emptyReturn\<lparr>ReturnConstant := Some cm\<rparr>])
            | None \<Rightarrow>
               (case lookup2 (noneByFieldAndElement sc) fieldName ret of
                  Some no \<Rightarrow> (h, [emptyReturn\<lparr>ReturnNone := Some (no\<lparr>NoneName := ret\<rparr>)\<rparr>])
                | None \<Rightarrow>
                   (case lookup2 (structFieldByFieldAndElement sc) fieldName ret of
                      Some so \<Rightarrow> (h, [emptyReturn\<lparr>ReturnField := Some so\<rparr>])
                    | None \<Rightarrow> (h, [])))))"

fun buildReturns ::
  "StructScan \<Rightarrow> Field \<Rightarrow> string \<Rightarrow> string \<Rightarrow> heap \<times> ReturnOutput list \<Rightarrow> string list \<Rightarrow>
   heap \<times> ReturnOutput list" where
  "buildReturns sc field fieldName packageName (h, returns) [] = (h, returns)"
| "buildReturns sc field fieldName packageName (h, returns) (ret # rets) =
     (case buildReturn sc h field fieldName packageName ret of
        (h', new) \<Rightarrow> buildReturns sc field fieldName packageName (h', returns @ new) rets)"

text \<open>The body of the loop over the configured getters: the getter is kept when every
  token produced a return.\<close>

definition buildGetter ::
  "Field \<Rightarrow> string \<Rightarrow> string \<Rightarrow> heap \<times> StructScan \<Rightarrow> ConfigGetter \<Rightarrow> heap \<times> StructScan" where
  "buildGetter field fieldName packageName hs g =
     (case hs of (h, sc) \<Rightarrow>
        (let getterName = buildName (GetterPrefix (GetterOutput g)) fieldName
                            (GetterSuffix (GetterOutput g)) [] (GetterFormat (GetterOutput g));
             (h', returns) = buildReturns sc field fieldName packageName (h, []) (Returns g);
             getter = \<lparr>GetterOutputName = getterName, GetterReturns = returns\<rparr>;
             sm = structModel sc
         in if length returns = length (Returns g)
            then (h', sc\<lparr>structModel := sm\<lparr>StructGetters := StructGetters sm @ [getter]\<rparr>\<rparr>)
            else (h', sc)))"

text \<open>One name of one field: all elements, then all getters.\<close>

definition scanFieldName ::
  "TagGet \<Rightarrow> Config \<Rightarrow> string \<Rightarrow> Field \<Rightarrow> string \<Rightarrow> heap \<times> StructScan \<Rightarrow> string \<Rightarrow>
   heap \<times> StructScan" where
  "scanFieldName get config packageName field tagText hs fieldName =
     (case hs of (h, sc) \<Rightarrow>
        foldl (buildGetter field fieldName packageName)
          (h, foldl (buildElement get packageName fieldName tagText) sc (Elements config))
          (Getters config))"

text \<open>One field of the struct: embedded fields and excluded fields are skipped.\<close>

definition scanField ::
  "ExportTest \<Rightarrow> TagGet \<Rightarrow> Config \<Rightarrow> string \<Rightarrow> heap \<times> StructScan \<Rightarrow> Field \<Rightarrow>
   heap \<times> StructScan" where
  "scanField exported get config packageName hs field =
     (if length (Names field) = 0 then hs
      else if \<not> mustIncludeField exported get config field then hs
      else (let tagText = fieldTagText field
            in foldl (scanFieldName get config packageName field tagText) hs (Names field)))"

definition buildStructModel ::
  "ExportTest \<Rightarrow> TagGet \<Rightarrow> Config \<Rightarrow> string \<Rightarrow> string \<Rightarrow> heap \<Rightarrow> StructDecl \<Rightarrow>
   heap \<times> StructModel" where
  "buildStructModel exported get config filePath packageName h d =
     (case foldl (scanField exported get config packageName) (h, newStructScan d filePath) (Fields d) of
        (h', sc) \<Rightarrow> (h', structModel sc))"


section \<open>Scanning files\<close>

text \<open>
  What the engine obtains from outside the repository is gathered in an environment:
  the parser (\<open>parser.ParseFile\<close>, full and package clause only), \<open>reflect.StructTag.Get\<close>,
  \<open>ast.IsExported\<close>,
  the directory of a file as \<open>extractPackagePath\<close> derives it from the absolute path, the
  glob matcher \<open>doublestar.Glob\<close> over a directory and the visits of \<open>filepath.Walk\<close>.

  A parse error is a \<open>scanner.Error\<close> with its line, a \<open>scanner.ErrorList\<close> with the lines
  of its entries, or any other error; each carries its text.
\<close>

datatype ParseError =
  ScannerError int string
| ScannerErrorList "int list" string
| OtherError string

record ParsedFile =
  FilePackageName :: string
  Decls :: "StructDecl list"

record WalkEntry =
  WalkPath :: string
  WalkIsDir :: bool
  WalkErr :: "string option"

record Env =
  ParseFile :: "string \<Rightarrow> ParseError + ParsedFile"
  ParsePackageClause :: "string \<Rightarrow> string option"
  StructTagGet :: TagGet
  IsExported :: ExportTest
  extractPackagePath :: "string \<Rightarrow> string"
  Glob :: "string \<Rightarrow> string \<Rightarrow> string + string list"
  Walk :: "string \<Rightarrow> WalkEntry list"

definition errorLine :: "ParseError \<Rightarrow> int" where
  "errorLine err =
     (case err of
        ScannerError line text \<Rightarrow> line
      | ScannerErrorList lines text \<Rightarrow> (case lines of [] \<Rightarrow> 0 | line # _ \<Rightarrow> line)
      | OtherError text \<Rightarrow> 0)"

definition errorText :: "ParseError \<Rightarrow> string" where
  "errorText err =
     (case err of
        ScannerError line text \<Rightarrow> text
      | ScannerErrorList lines text \<Rightarrow> text
      | OtherError text \<Rightarrow> text)"

text \<open>
  One struct type specification: the inclusion verdict, the struct model, and
  \<open>AddStruct\<close> when the struct model holds at least one artifact.
\<close>

inductive scanStruct ::
  "Env \<Rightarrow> Config \<Rightarrow> string \<Rightarrow> string \<Rightarrow> string \<Rightarrow> heap \<times> Model \<Rightarrow> StructDecl \<Rightarrow>
   heap \<times> Model \<Rightarrow> bool"
where
  struct_dropped:
    "mustIncludeStruct (IsExported env) config m d filePath = (False, m1) \<Longrightarrow>
     scanStruct env config filePath packagePath packageName (h, m) d (h, m1)"
| struct_empty:
    "mustIncludeStruct (IsExported env) config m d filePath = (True, m1) \<Longrightarrow>
     buildStructModel (IsExported env) (StructTagGet env) config filePath packageName h d = (h1, sm) \<Longrightarrow>
     \<not> (length (Constants sm) > 0 \<or> length (Structs sm) > 0 \<or> length (StructGetters sm) > 0) \<Longrightarrow>
     scanStruct env config filePath packagePath packageName (h, m) d (h1, m1)"
| struct_added:
    "mustIncludeStruct (IsExported env) config m d filePath = (True, m1) \<Longrightarrow>
     buildStructModel (IsExported env) (StructTagGet env) config filePath packageName h d = (h1, sm) \<Longrightarrow>
     length (Constants sm) > 0 \<or> length (Structs sm) > 0 \<or> length (StructGetters sm) > 0 \<Longrightarrow>
     AddStruct (h1, m1) packagePath packageName sm s' \<Longrightarrow>
     scanStruct env config filePath packagePath packageName (h, m) d s'"

inductive scanStructs ::
  "Env \<Rightarrow> Config \<Rightarrow> string \<Rightarrow> string \<Rightarrow> string \<Rightarrow> heap \<times> Model \<Rightarrow> StructDecl list \<Rightarrow>
   heap \<times> Model \<Rightarrow> bool"
where
  structs_done:
    "scanStructs env config filePath packagePath packageName s [] s"
| structs_next:
    "scanStruct env config filePath packagePath packageName s d s1 \<Longrightarrow>
     scanStructs env config filePath packagePath packageName s1 ds s' \<Longrightarrow>
     scanStructs env config filePath packagePath packageName s (d # ds) s'"

text \<open>
  \<open>scanFile\<close> returns an error value (always \<open>nil\<close>, here \<open>None\<close>) and leaves the new
  state.  The file counter is advanced before the file is parsed.
\<close>

inductive scanFile ::
  "Env \<Rightarrow> Config \<Rightarrow> heap \<times> Model \<Rightarrow> string \<Rightarrow> string option \<times> heap \<times> Model \<Rightarrow> bool"
where
  file_parse_error:
    "ParseFile env filePath = Inl err \<Longrightarrow>
     m1 = m\<lparr>FilesScanned := FilesScanned m + 1\<rparr> \<Longrightarrow>
     scanFile env config (h, m) filePath
       (None, h, AddError m1 filePath (errorLine err) (''failed to parse file: '' @ errorText err))"
| file_parsed:
    "ParseFile env filePath = Inr node \<Longrightarrow>
     m1 = m\<lparr>FilesScanned := FilesScanned m + 1\<rparr> \<Longrightarrow>
     scanStructs env config filePath (extractPackagePath env filePath) (FilePackageName node)
       (h, m1) (Decls node) s' \<Longrightarrow>
     scanFile env config (h, m) filePath (None, s')"

text \<open>The loop of \<open>scanFiles\<close> over the files: it stops at the first error a file returns.\<close>

inductive scanFilesLoop ::
  "Env \<Rightarrow> Config \<Rightarrow> heap \<times> Model \<Rightarrow> string list \<Rightarrow> string option \<times> heap \<times> Model \<Rightarrow> bool"
where
  files_done:
    "scanFilesLoop env config s [] (None, s)"
| files_error:
    "scanFile env config s file (Some err, s1) \<Longrightarrow>
     scanFilesLoop env config s (file # files) (Some err, s1)"
| files_next:
    "scanFile env config s file (None, s1) \<Longrightarrow>
     scanFilesLoop env config s1 files r \<Longrightarrow>
     scanFilesLoop env config s (file # files) r"

section \<open>Source walker\<close>

text \<open>
  \<open>filepath.Join\<close> and \<open>filepath.Clean\<close> on slash-separated paths, element by element:
  empty and \<open>.\<close> elements vanish, a \<open>..\<close> element removes the element before it, is kept at
  the front of an unrooted path and is dropped at the root.
\<close>

fun splitOn :: "char \<Rightarrow> string \<Rightarrow> string list" where
  "splitOn c [] = [[]]"
| "splitOn c (x # xs) =
     (if x = c then [] # splitOn c xs
      else (case splitOn c xs of [] \<Rightarrow> [[x]] | w # ws \<Rightarrow> (x # w) # ws))"

definition cleanStep :: "bool \<Rightarrow> string list \<Rightarrow> string \<Rightarrow> string list" where
  "cleanStep rooted stack e =
     (if e = [] \<or> e = ''.'' then stack
      else if e = ''..'' then
        (if stack \<noteq> [] \<and> last stack \<noteq> ''..'' then butlast stack
         else if \<not> rooted then stack @ [''..'']
         else stack)
      else stack @ [e])"

definition Clean :: "string \<Rightarrow> string" where
  "Clean path =
     (if path = [] then ''.''
      else (let rooted = (hd path = CHR ''/'');
                stack = foldl (cleanStep rooted) [] (splitOn (CHR ''/'') path);
                out = (if rooted then ''/'' else []) @ Join stack ''/''
            in if out = [] then ''.'' else out))"

fun filepathJoin :: "string list \<Rightarrow> string" where
  "filepathJoin [] = []"
| "filepathJoin (e # es) = (if e \<noteq> [] then Clean (Join (e # es) ''/'') else filepathJoin es)"

text \<open>
  \<open>findPackageFiles\<close>: the callback of \<open>filepath.Walk\<close>, visit by visit.  A visit with an
  error ends the walk; the files found so far are returned with the error.
\<close>

fun walkLoop :: "Env \<Rightarrow> string \<Rightarrow> string list \<Rightarrow> WalkEntry list \<Rightarrow> string list \<times> string option" where
  "walkLoop env packageName files [] = (files, None)"
| "walkLoop env packageName files (e # es) =
     (case WalkErr e of
        Some err \<Rightarrow> (files, Some err)
      | None \<Rightarrow>
          if WalkIsDir e then walkLoop env packageName files es
          else if \<not> HasSuffix (WalkPath e) ''.go'' then walkLoop env packageName files es
          else (case ParsePackageClause env (WalkPath e) of
                  None \<Rightarrow> walkLoop env packageName files es
                | Some name \<Rightarrow>
                    if name = packageName then walkLoop env packageName (files @ [WalkPath e]) es
                    else walkLoop env packageName files es))"

definition findPackageFiles :: "Env \<Rightarrow> Config \<Rightarrow> string \<Rightarrow> string list \<times> string option" where
  "findPackageFiles env config packageName = walkLoop env packageName [] (Walk env (Dir (Input config)))"

definition TrimPrefix :: "string \<Rightarrow> string \<Rightarrow> string" where
  "TrimPrefix s p = (if HasPrefix s p then drop (length p) s else s)"

definition expandPattern :: "Env \<Rightarrow> Config \<Rightarrow> string \<Rightarrow> string list \<times> string option" where
  "expandPattern env config pattern =
     (if HasPrefix pattern ''package:'' then
        findPackageFiles env config (TrimPrefix pattern ''package:'')
      else (case Glob env (Dir (Input config)) pattern of
              Inl err \<Rightarrow> ([], Some (''invalid glob pattern '' @ pattern @ '': '' @ err))
            | Inr matches \<Rightarrow>
                (map (\<lambda>m. filepathJoin [Dir (Input config), m])
                   (filter (\<lambda>m. HasSuffix m ''.go'') matches), None)))"

text \<open>
  \<open>findFiles\<close>: the exclusion set, then the inclusion set, then the files of the
  inclusion set in the order a range over the set happens to produce.
\<close>

fun excludeLoop :: "Env \<Rightarrow> Config \<Rightarrow> string set \<Rightarrow> string list \<Rightarrow> string + string set" where
  "excludeLoop env config mustExclude [] = Inr mustExclude"
| "excludeLoop env config mustExclude (exclude # rest) =
     (case expandPattern env config exclude of
        (paths, Some err) \<Rightarrow> Inl (''failed to expand pattern '' @ exclude @ '': '' @ err)
      | (paths, None) \<Rightarrow> excludeLoop env config (mustExclude \<union> set paths) rest)"

fun includeLoop ::
  "Env \<Rightarrow> Config \<Rightarrow> string set \<Rightarrow> string set \<Rightarrow> string list \<Rightarrow> string + string set" where
  "includeLoop env config mustExclude includeSet [] = Inr includeSet"
| "includeLoop env config mustExclude includeSet (include # rest) =
     (case expandPattern env config include of
        (paths, Some err) \<Rightarrow> Inl (''failed to expand pattern '' @ include @ '': '' @ err)
      | (paths, None) \<Rightarrow>
          includeLoop env config mustExclude
            (includeSet \<union> {p \<in> set paths. p \<notin> mustExclude}) rest)"

definition includeSetOf :: "Env \<Rightarrow> Config \<Rightarrow> string + string set" where
  "includeSetOf env config =
     (case excludeLoop env config {} (Exclude (Input config)) of
        Inl err \<Rightarrow> Inl err
      | Inr mustExclude \<Rightarrow> includeLoop env config mustExclude {} (Include (Input config)))"

inductive findFiles :: "Env \<Rightarrow> Config \<Rightarrow> string + string list \<Rightarrow> bool" where
  find_error:
    "includeSetOf env config = Inl err \<Longrightarrow> findFiles env config (Inl err)"
| find_files:
    "includeSetOf env config = Inr includeSet \<Longrightarrow> distinct files \<Longrightarrow> set files = includeSet \<Longrightarrow>
     findFiles env config (Inr files)"

text \<open>\<open>scanFiles\<close> and \<open>Build\<close>: an error of the walker ends the run before any file is read.\<close>

inductive scanFiles ::
  "Env \<Rightarrow> Config \<Rightarrow> heap \<times> Model \<Rightarrow> string option \<times> heap \<times> Model \<Rightarrow> bool"
where
  scan_no_files:
    "findFiles env config (Inl err) \<Longrightarrow> scanFiles env config s (Some err, s)"
| scan_files:
    "findFiles env config (Inr files) \<Longrightarrow> scanFilesLoop env config s files r \<Longrightarrow>
     scanFiles env config s r"


section \<open>Notions of the specification and of the proofs\<close>

text \<open>
  A correctly pascal-cased word as the specification words it: an upper-case letter
  followed by characters that are not upper-case.
\<close>

fun specPascalWord :: "string \<Rightarrow> bool" where
  "specPascalWord [] = False"
| "specPascalWord (c # cs) = (isUpper c \<and> list_all (\<lambda>d. \<not> isUpper d) cs)"

text \<open>
  The words on which pascal-casing is the identity: an upper-case letter followed by
  lower-case letters and digits, and at least one of them in every word but the last.
\<close>

fun pascalWord :: "string \<Rightarrow> bool" where
  "pascalWord [] = False"
| "pascalWord (c # cs) = (isUpper c \<and> list_all (\<lambda>d. isLower d \<or> isDigit d) cs)"

fun pascalWords :: "string list \<Rightarrow> bool" where
  "pascalWords [] = True"
| "pascalWords [w] = pascalWord w"
| "pascalWords (w # v # ws) = (pascalWord w \<and> 2 \<le> length w \<and> pascalWords (v # ws))"

text \<open>
  The model after a parse failure of \<open>filePath\<close> with the error \<open>err\<close>: one more file
  scanned and one more error.
\<close>

definition parseFailureModel :: "Model \<Rightarrow> string \<Rightarrow> ParseError \<Rightarrow> Model" where
  "parseFailureModel m filePath err =
     m\<lparr>FilesScanned := FilesScanned m + 1,
       Errors := Errors m @ [\<lparr>ErrorFile = filePath, ErrorLine = errorLine err,
                               Message = ''failed to parse file: '' @ errorText err\<rparr>]\<rparr>"




text \<open>Two scan states with the same caches.\<close>

definition sameCaches :: "StructScan \<Rightarrow> StructScan \<Rightarrow> bool" where
  "sameCaches sc sc' =
     (constantsByFieldAndElement sc' = constantsByFieldAndElement sc
      \<and> noneByFieldAndElement sc' = noneByFieldAndElement sc
      \<and> structFieldByFieldAndElement sc' = structFieldByFieldAndElement sc)"


text \<open>
  The identifier under which generated code refers to an import: the alias when it is set,
  the package name otherwise.  An \<open>Imports\<close> map is well formed in a heap when it is
  finite, every path is the key of the one object that carries it, and no two entries
  have the same effective identifier.
\<close>

definition effectiveId :: "TypePackageOutput \<Rightarrow> string" where
  "effectiveId tp = (if Alias tp \<noteq> [] then Alias tp else Name tp)"

definition wfImports :: "heap \<Rightarrow> (string \<rightharpoonup> addr) \<Rightarrow> bool" where
  "wfImports h imports =
     (finite (dom imports)
      \<and> (\<forall>p a. imports p = Some a \<longrightarrow> a < length h \<and> Path (h ! a) = p)
      \<and> (\<forall>p q a b. imports p = Some a \<and> imports q = Some b \<and> p \<noteq> q \<longrightarrow>
             effectiveId (h ! a) \<noteq> effectiveId (h ! b)))"

text \<open>
  The test of the loop in \<open>setRecursiveAlias\<close>, for some import of the package: an import
  with another path has the name, or the alias, \<open>name\<close>.
\<close>

definition collides :: "heap \<Rightarrow> (string \<rightharpoonup> addr) \<Rightarrow> addr \<Rightarrow> string \<Rightarrow> bool" where
  "collides h imports currentImport name =
     (\<exists>k imp. imports k = Some imp \<and> Path (h ! imp) \<noteq> Path (h ! currentImport)
        \<and> (Name (h ! imp) = name \<or> Alias (h ! imp) = name))"

definition underscores :: "nat \<Rightarrow> string \<Rightarrow> string" where
  "underscores n name = replicate n (CHR ''_'') @ name"

text \<open>
  Two heaps that differ at most in the alias of the object at \<open>cur\<close>; the test of the loop
  for the key \<open>k\<close>; and the alias on which the renaming settles: the name with the least
  positive number of underscores in front that collides with no other import.
\<close>

definition frame :: "addr \<Rightarrow> heap \<Rightarrow> heap \<Rightarrow> bool" where
  "frame cur h h' =
     (length h' = length h \<and> (\<forall>a. a \<noteq> cur \<longrightarrow> h' ! a = h ! a)
      \<and> Path (h' ! cur) = Path (h ! cur) \<and> Name (h' ! cur) = Name (h ! cur))"

definition hit :: "heap \<Rightarrow> (string \<rightharpoonup> addr) \<Rightarrow> addr \<Rightarrow> string \<Rightarrow> string \<Rightarrow> bool" where
  "hit h imports currentImport name k =
     (\<exists>imp. imports k = Some imp \<and> Path (h ! imp) \<noteq> Path (h ! currentImport)
        \<and> (Name (h ! imp) = name \<or> Alias (h ! imp) = name))"

definition settled :: "heap \<Rightarrow> (string \<rightharpoonup> addr) \<Rightarrow> addr \<Rightarrow> string \<Rightarrow> string \<Rightarrow> bool" where
  "settled h imports currentImport name a =
     (\<exists>n. a = underscores (Suc n) name \<and> \<not> collides h imports currentImport a
        \<and> (\<forall>j \<le> n. collides h imports currentImport (underscores j name)))"

text \<open>
  A heap in which the renaming of \<open>cur\<close> can run: \<open>cur\<close> and every import are allocated, and
  the names and aliases of the other objects are at most \<open>L\<close> characters long.
\<close>

definition renamable :: "heap \<Rightarrow> (string \<rightharpoonup> addr) \<Rightarrow> addr \<Rightarrow> nat \<Rightarrow> bool" where
  "renamable h imports cur L =
     (cur < length h \<and> (\<forall>k imp. imports k = Some imp \<longrightarrow> imp < length h)
      \<and> (\<forall>a < length h. a \<noteq> cur \<longrightarrow> length (Name (h ! a)) \<le> L \<and> length (Alias (h ! a)) \<le> L))"

text \<open>The package objects that the value returns of a list of returns point to.\<close>

definition valueAddrs :: "ReturnOutput list \<Rightarrow> addr list" where
  "valueAddrs rs = map TypePackage (List.map_filter ReturnValue rs)"

text \<open>
  An \<open>Imports\<close> map whose objects are all allocated; a model whose packages all have well
  formed imports; a set of package objects not yet registered in any package, allocated
  and without an alias; and the package objects of a sequence of calls.
\<close>

definition allocated :: "heap \<Rightarrow> (string \<rightharpoonup> addr) \<Rightarrow> bool" where
  "allocated h imports = (finite (dom imports) \<and> (\<forall>k imp. imports k = Some imp \<longrightarrow> imp < length h))"

definition modelWf :: "heap \<times> Model \<Rightarrow> bool" where
  "modelWf s = (\<forall>packagePath pkg. Packages (snd s) packagePath = Some pkg \<longrightarrow>
                  wfImports (fst s) (Imports pkg))"

definition unregistered :: "heap \<times> Model \<Rightarrow> addr set \<Rightarrow> bool" where
  "unregistered s A =
     (\<forall>a \<in> A. a < length (fst s) \<and> Alias (fst s ! a) = []
        \<and> (\<forall>packagePath pkg. Packages (snd s) packagePath = Some pkg \<longrightarrow> a \<notin> ran (Imports pkg)))"

definition modelAllocated :: "heap \<times> Model \<Rightarrow> bool" where
  "modelAllocated s = (\<forall>packagePath pkg. Packages (snd s) packagePath = Some pkg \<longrightarrow>
                         allocated (fst s) (Imports pkg))"

definition callAddrs :: "(string \<times> string \<times> StructModel) list \<Rightarrow> addr list" where
  "callAddrs calls = concat (map (\<lambda>(packagePath, packageName, sm). valueAddrs (structReturns sm)) calls)"

text \<open>A sequence of calls of \<open>AddStruct\<close>, each with its package path, package name and
  struct model.\<close>

inductive AddStructs ::
  "heap \<times> Model \<Rightarrow> (string \<times> string \<times> StructModel) list \<Rightarrow> heap \<times> Model \<Rightarrow> bool"
where
  calls_done: "AddStructs s [] s"
| calls_next:
    "AddStruct s packagePath packageName sm s1 \<Longrightarrow> AddStructs s1 calls s' \<Longrightarrow>
     AddStructs s ((packagePath, packageName, sm) # calls) s'"

section \<open>Sample inputs\<close>

text \<open>
  A configuration with one element, \<open>json\<close>, read from the \<open>json\<close> tag and emitted as a
  constant, and one getter that returns it; unexported fields are included.
\<close>

definition sampleInput :: ConfigInput where
  "sampleInput =
     \<lparr>Include = [''**/*.go''], Exclude = [''**/*_test.go''], Dir = ''.'',
      Struct = \<lparr>Explicit = Some False, IncludeUnexported = Some False\<rparr>,
      Field = \<lparr>FieldExplicit = Some False, FieldIncludeUnexported = Some True\<rparr>\<rparr>"

definition jsonElement :: ConfigTag where
  "jsonElement =
     \<lparr>ElementName = ''json'',
      ElementInput = \<lparr>Mode = InputModeTypeTag, TagPriority = [''json'']\<rparr>,
      ElementOutput =
        \<lparr>OutputMode = OutputModeConstant,
         Format = \<lparr>Holder = ConstantFormatPascal, StructFormat = ConstantFormatPascal,
                   Prefix = ''json'', Suffix = []\<rparr>,
         Transform = \<lparr>TagValues = Some False, ValueCase = TransformCaseAsIs,
                      ValueSeparator = []\<rparr>\<rparr>\<rparr>"

definition jsonGetter :: ConfigGetter where
  "jsonGetter =
     \<lparr>GetterName = ''Json'', Returns = [''json''],
      GetterOutput = \<lparr>GetterPrefix = ''Json'', GetterSuffix = [],
                      GetterFormat = ConstantFormatPascal\<rparr>\<rparr>"

definition sampleConfig :: Config where
  "sampleConfig = \<lparr>Input = sampleInput, Elements = [jsonElement], Getters = [jsonGetter]\<rparr>"

text \<open>The tag texts \<open>json:"a"\<close>, \<open>constago:"exclude"\<close> and \<open>constago:"include"\<close>, and
  \<open>reflect.StructTag.Get\<close> on these three.\<close>

definition jsonTag :: string where
  "jsonTag = ''json:'' @ [CHR 0x22] @ ''a'' @ [CHR 0x22]"

definition excludeTag :: string where
  "excludeTag = ''constago:'' @ [CHR 0x22] @ ''exclude'' @ [CHR 0x22]"

definition includeTag :: string where
  "includeTag = ''constago:'' @ [CHR 0x22] @ ''include'' @ [CHR 0x22]"

definition sampleTagGet :: TagGet where
  "sampleTagGet tag key =
     (if tag = jsonTag \<and> key = ''json'' then ''a''
      else if tag = excludeTag \<and> key = ''constago'' then ''exclude''
      else if tag = includeTag \<and> key = ''constago'' then ''include''
      else [])"

text \<open>\<open>ast.IsExported\<close> on names that start with an ASCII character.\<close>

definition asciiExported :: ExportTest where
  "asciiExported name = (case name of [] \<Rightarrow> False | c # _ \<Rightarrow> isUpper c)"

definition backquoted :: "string \<Rightarrow> string" where
  "backquoted s = [CHR 0x60] @ s @ [CHR 0x60]"

text \<open>A struct \<open>User\<close> with a plain doc comment and the field \<open>Name string `json:"a"`\<close>, and
  a struct with both directives.\<close>

definition nameField :: Field where
  "nameField =
     \<lparr>Names = [''Name''], Tag = Some (backquoted jsonTag), FieldType = Some (''string'', None)\<rparr>"

definition userDecl :: StructDecl where
  "userDecl =
     \<lparr>DeclDoc = [''// User is a person''], SpecDoc = [], StructName = ''User'', StructLine = 3,
      Fields = [nameField]\<rparr>"




definition sampleEnv :: Env where
  "sampleEnv =
     \<lparr>ParseFile = (\<lambda>path. if path = ''bad.go'' then Inl (ScannerErrorList [7] ''7:1: expected declaration'')
                          else Inr \<lparr>FilePackageName = ''models'', Decls = [userDecl]\<rparr>),
      ParsePackageClause = (\<lambda>path. if path = ''bad.go'' then None else Some ''models''),
      StructTagGet = sampleTagGet,
      IsExported = asciiExported,
      extractPackagePath = (\<lambda>path. ''/src/models''),
      Glob = (\<lambda>dir pattern. if pattern = ''**/*'' then Inr [''notes.txt'', ''user.go'']
                           else if pattern = ''**/*.go'' then Inr [''user.go'']
                           else Inr []),
      Walk = (\<lambda>dir. [\<lparr>WalkPath = ''.'', WalkIsDir = True, WalkErr = None\<rparr>,
                      \<lparr>WalkPath = ''notes.txt'', WalkIsDir = False, WalkErr = None\<rparr>,
                      \<lparr>WalkPath = ''user.go'', WalkIsDir = False, WalkErr = None\<rparr>])\<rparr>"

text \<open>
  A struct with two blank fields, the first tagged \<open>json:"a"\<close>, the second without a tag;
  the same struct with the first field only, and with the second field only.
\<close>

definition blankTagged :: Field where
  "blankTagged = \<lparr>Names = [''_''], Tag = Some (backquoted jsonTag), FieldType = Some (''int'', None)\<rparr>"

definition blankPlain :: Field where
  "blankPlain = \<lparr>Names = [''_''], Tag = None, FieldType = Some (''string'', None)\<rparr>"

definition blankDecl :: "Field list \<Rightarrow> StructDecl" where
  "blankDecl fs =
     \<lparr>DeclDoc = [], SpecDoc = [], StructName = ''User'', StructLine = 3, Fields = fs\<rparr>"



text \<open>
  Three package objects with different import paths and the same package name \<open>strings\<close>,
  and three struct models, each with one getter that returns a value of one of them.
\<close>

definition stringsHeap :: heap where
  "stringsHeap =
     [\<lparr>Path = ''github.com/example/strings'', Name = ''strings'', Alias = []\<rparr>,
      \<lparr>Path = ''github.com/other/strings'', Name = ''strings'', Alias = []\<rparr>,
      \<lparr>Path = ''github.com/another/strings'', Name = ''strings'', Alias = []\<rparr>]"

definition valueStruct :: "string \<Rightarrow> addr \<Rightarrow> StructModel" where
  "valueStruct name a =
     \<lparr>StructModelName = name, File = [], LineNumber = 0, Constants = [], Structs = [],
      StructGetters =
        [\<lparr>GetterOutputName = ''GetName'',
          GetterReturns =
            [emptyReturn\<lparr>ReturnValue := Some \<lparr>FieldName = [], TypeName = [], TypePackage = a\<rparr>\<rparr>]\<rparr>]\<rparr>"

definition stringsCalls :: "(string \<times> string \<times> StructModel) list" where
  "stringsCalls =
     [(''github.com/test/package1'', ''package1'', valueStruct ''User'' 0),
      (''github.com/test/package1'', ''package1'', valueStruct ''Product'' 1),
      (''github.com/test/package1'', ''package1'', valueStruct ''Product'' 2)]"

section \<open>Verification\<close>

subsection \<open>Characters and strings\<close>

lemma HasPrefix_iff: "HasPrefix s p \<longleftrightarrow> (\<exists>r. s = p @ r)"
  by (induction s p rule: HasPrefix.induct) auto

lemma HasSuffix_iff: "HasSuffix s suf \<longleftrightarrow> (\<exists>r. s = r @ suf)"
proof -
  have "(\<exists>r. rev s = rev suf @ r) \<longleftrightarrow> (\<exists>r. s = r @ suf)"
  proof
    assume "\<exists>r. rev s = rev suf @ r"
    then obtain r where "rev s = rev suf @ r" ..
    then have "rev (rev s) = rev (rev suf @ r)" by simp
    then have "s = rev r @ suf" by simp
    then show "\<exists>r. s = r @ suf" ..
  next
    assume "\<exists>r. s = r @ suf"
    then obtain r where "s = r @ suf" ..
    then have "rev s = rev suf @ rev r" by simp
    then show "\<exists>r. rev s = rev suf @ r" ..
  qed
  then show ?thesis by (simp add: HasSuffix_def HasPrefix_iff)
qed

lemma Contains_iff: "Contains s sub \<longleftrightarrow> (\<exists>a b. s = a @ sub @ b)"
proof (induction s)
  case Nil
  then show ?case by auto
next
  case (Cons c cs)
  show ?case
  proof
    assume "Contains (c # cs) sub"
    then consider "HasPrefix (c # cs) sub" | "Contains cs sub" by auto
    then show "\<exists>a b. c # cs = a @ sub @ b"
    proof cases
      case 1
      then obtain r where "c # cs = sub @ r" unfolding HasPrefix_iff ..
      then have "c # cs = [] @ sub @ r" by simp
      then show ?thesis by blast
    next
      case 2
      then obtain a b where "cs = a @ sub @ b" using Cons.IH by blast
      then have "c # cs = (c # a) @ sub @ b" by simp
      then show ?thesis by blast
    qed
  next
    assume "\<exists>a b. c # cs = a @ sub @ b"
    then obtain a b where ab: "c # cs = a @ sub @ b" by blast
    show "Contains (c # cs) sub"
    proof (cases a)
      case Nil
      then have "HasPrefix (c # cs) sub" using ab unfolding HasPrefix_iff by auto
      then show ?thesis by simp
    next
      case (Cons x xs)
      then have "cs = xs @ sub @ b" using ab by simp
      then have "Contains cs sub" using Cons.IH by blast
      then show ?thesis by simp
    qed
  qed
qed

lemma dropWhile_infix: "\<exists>a. s = a @ dropWhile P s"
  by (metis takeWhile_dropWhile_id)

lemma TrimSpace_infix: "\<exists>a b. s = a @ TrimSpace s @ b"
proof -
  obtain a where a: "s = a @ dropWhile isSpace s" using dropWhile_infix by blast
  let ?t = "dropWhile isSpace s"
  obtain b where "rev ?t = b @ dropWhile isSpace (rev ?t)" using dropWhile_infix by blast
  then have "rev (rev ?t) = rev (b @ dropWhile isSpace (rev ?t))" by simp
  then have "?t = rev (dropWhile isSpace (rev ?t)) @ rev b" by simp
  then have "?t = TrimSpace s @ rev b" by (simp add: TrimSpace_def)
  with a have "s = a @ TrimSpace s @ rev b" by simp
  then show ?thesis by blast
qed

lemma Contains_TrimSpace: "Contains (TrimSpace s) sub \<Longrightarrow> Contains s sub"
proof -
  assume "Contains (TrimSpace s) sub"
  then obtain a b where t: "TrimSpace s = a @ sub @ b" unfolding Contains_iff by blast
  obtain x y where "s = x @ TrimSpace s @ y" using TrimSpace_infix by blast
  with t have "s = (x @ a) @ sub @ (b @ y)" by simp
  then show ?thesis unfolding Contains_iff by blast
qed

lemma upper_roundtrip: "isUpper c \<Longrightarrow> toUpperChar (toLowerChar c) = c"
  unfolding isUpper_def toUpperChar_def toLowerChar_def isLower_def code_def by simp

lemma upper_lower_cased: "isUpper c \<Longrightarrow> isCased (toLowerChar c)"
  unfolding isUpper_def isCased_def toLowerChar_def isLower_def code_def by simp

lemma code_toLowerChar: "isUpper c \<Longrightarrow> code (toLowerChar c) = code c + 32"
  unfolding isUpper_def toLowerChar_def code_def by simp

lemma isMid_code: "isMid d \<Longrightarrow> code d = 39 \<or> code d = 58 \<or> code d = 46"
  unfolding isMid_def code_def by auto

lemma upper_lower_not_mid: "isUpper c \<Longrightarrow> \<not> isMid (toLowerChar c)"
  using code_toLowerChar [of c] isMid_code [of "toLowerChar c"]
  unfolding isUpper_def by auto

lemma upper_not_sep: "isUpper c \<Longrightarrow> \<not> isSeparator c"
  unfolding isUpper_def isSeparator_def code_def by auto

lemma lower_not_sep: "isLower c \<Longrightarrow> \<not> isSeparator c"
  unfolding isLower_def isSeparator_def code_def by auto

lemma digit_not_sep: "isDigit c \<Longrightarrow> \<not> isSeparator c"
  unfolding isDigit_def isSeparator_def code_def by auto

lemma lower_not_mid: "isLower c \<Longrightarrow> \<not> isMid c"
  unfolding isLower_def isMid_def code_def by auto

lemma digit_not_mid: "isDigit c \<Longrightarrow> \<not> isMid c"
  unfolding isDigit_def isMid_def code_def by auto

lemma lower_not_upper: "isLower c \<Longrightarrow> \<not> isUpper c"
  unfolding isLower_def isUpper_def by simp

lemma digit_not_upper: "isDigit c \<Longrightarrow> \<not> isUpper c"
  unfolding isDigit_def isUpper_def by simp

lemma tail_char_facts:
  assumes "isLower d \<or> isDigit d"
  shows "\<not> isSeparator d" "\<not> isUpper d" "toLowerChar d = d" "\<not> isBreak d" "\<not> isMid d"
proof -
  show "\<not> isSeparator d" using assms lower_not_sep digit_not_sep by blast
  show u: "\<not> isUpper d" using assms lower_not_upper digit_not_upper by blast
  show "toLowerChar d = d" using u by (simp add: toLowerChar_def)
  show "\<not> isBreak d" using assms by (auto simp: isBreak_def isCased_def)
  show "\<not> isMid d" using assms lower_not_mid digit_not_mid by blast
qed

lemma splitLoop_tail:
  "list_all (\<lambda>d. isLower d \<or> isDigit d) cs \<Longrightarrow>
   splitLoop words cur prev (cs @ rest) = splitLoop words (cur @ cs) (last (prev # cs)) rest"
proof (induction cs arbitrary: cur prev)
  case Nil
  then show ?case by simp
next
  case (Cons d cs)
  then have d: "\<not> isSeparator d" "\<not> isUpper d" and cs: "list_all (\<lambda>d. isLower d \<or> isDigit d) cs"
    using tail_char_facts [of d] by simp_all
  show ?case using Cons.IH [OF cs, of "cur @ [d]" d] d by simp
qed

lemma splitLoop_word:
  assumes "pascalWord w" and "cur = [] \<or> \<not> isUpper prev"
  shows "splitLoop words cur prev (w @ rest) =
         splitLoop (words @ (if cur = [] then [] else [cur])) w (last w) rest"
proof -
  from assms(1) obtain c cs where w: "w = c # cs" and c: "isUpper c"
    and cs: "list_all (\<lambda>d. isLower d \<or> isDigit d) cs"
    by (cases w) auto
  have ns: "\<not> isSeparator c" using c by (rule upper_not_sep)
  show ?thesis
  proof (cases "cur = []")
    case True
    then show ?thesis using w c ns splitLoop_tail [OF cs, of words "[c]" c rest] by simp
  next
    case False
    with assms(2) have "\<not> isUpper prev" by simp
    then show ?thesis
      using False w c ns splitLoop_tail [OF cs, of "words @ [cur]" "[c]" c rest] by simp
  qed
qed

lemma last_not_upper:
  "pascalWord w \<Longrightarrow> 2 \<le> length w \<Longrightarrow> \<not> isUpper (last w)"
proof -
  assume a: "pascalWord w" "2 \<le> length w"
  then obtain c cs where w: "w = c # cs" by (cases w) auto
  with a have cs: "list_all (\<lambda>d. isLower d \<or> isDigit d) cs" "cs \<noteq> []" by auto
  then have "last cs \<in> set cs" by simp
  with cs have "isLower (last cs) \<or> isDigit (last cs)" by (simp add: list_all_iff)
  then show ?thesis using tail_char_facts(2) w cs by simp
qed

lemma splitLoop_words:
  "pascalWords ws \<Longrightarrow> cur = [] \<or> \<not> isUpper prev \<Longrightarrow>
   splitLoop words cur prev (concat ws) = words @ (if cur = [] then [] else [cur]) @ ws"
proof (induction ws arbitrary: words cur prev rule: pascalWords.induct)
  case 1
  then show ?case by simp
next
  case (2 w)
  then have pw: "pascalWord w" by simp
  then have "w \<noteq> []" by (cases w) auto
  then show ?case using splitLoop_word [OF pw 2(2), of words "[]"] by simp
next
  case (3 w v ws)
  then have pw: "pascalWord w" and len: "2 \<le> length w" and rest: "pascalWords (v # ws)"
    by simp_all
  have ne: "w \<noteq> []" using len by auto
  have nu: "\<not> isUpper (last w)" using last_not_upper [OF pw len] .
  have "splitLoop words cur prev (concat (w # v # ws)) =
        splitLoop (words @ (if cur = [] then [] else [cur])) w (last w) (concat (v # ws))"
    using splitLoop_word [OF pw 3(3), of words "concat (v # ws)"] by simp
  also have "\<dots> = (words @ (if cur = [] then [] else [cur])) @ (if w = [] then [] else [w]) @ (v # ws)"
    using "3.IH" [OF rest, of w "last w"] nu by blast
  finally show ?case using ne by simp
qed

lemma titleLoop_tail:
  "list_all (\<lambda>d. isLower d \<or> isDigit d) cs \<Longrightarrow> titleLoop True cs = cs"
proof (induction cs)
  case Nil
  then show ?case by simp
next
  case (Cons d cs)
  then have d: "\<not> isBreak d" "\<not> isMid d" and cs: "list_all (\<lambda>d. isLower d \<or> isDigit d) cs"
    using tail_char_facts [of d] by simp_all
  have "titleLoop True (d # cs) = d # titleLoop True cs"
    using d by (cases cs) (simp_all add: Let_def)
  then show ?case using Cons.IH [OF cs] by simp
qed

lemma ToLower_tail:
  "list_all (\<lambda>d. isLower d \<or> isDigit d) cs \<Longrightarrow> ToLower cs = cs"
  unfolding ToLower_def
  by (induction cs) (use tail_char_facts(3) in auto)

lemma Title_pascalWord: "pascalWord w \<Longrightarrow> Title (ToLower w) = w"
proof -
  assume "pascalWord w"
  then obtain c cs where w: "w = c # cs" and c: "isUpper c"
    and cs: "list_all (\<lambda>d. isLower d \<or> isDigit d) cs"
    by (cases w) auto
  have lw: "ToLower w = toLowerChar c # cs" using w ToLower_tail [OF cs] by (simp add: ToLower_def)
  have "titleLoop False (toLowerChar c # cs) = c # titleLoop True cs"
    using upper_roundtrip [OF c] upper_lower_cased [OF c] upper_lower_not_mid [OF c]
    by (cases cs) (simp_all add: Let_def)
  then show ?thesis
    using w lw titleLoop_tail [OF cs] by (simp add: Title_def)
qed

lemma pascalWords_all: "pascalWords ws \<Longrightarrow> list_all pascalWord ws"
  by (induction ws rule: pascalWords.induct) auto

lemma concat_Title: "list_all pascalWord ws \<Longrightarrow>
   concat (map (\<lambda>v. Title (ToLower v)) (filter (\<lambda>v. v \<noteq> []) ws)) = concat ws"
  by (induction ws) (auto simp: Title_pascalWord)

subsection \<open>Value transform and name formatting\<close>

text \<open>
  C7.  \<open>transformFieldValue\<close> turns \<open>first_name\<close> with pascal case and separator space into
  \<open>First Name\<close>, and \<open>FirstName\<close> with lower case and separator \<open>_\<close> into \<open>first_name\<close>.  The
  words are cut at the separators \<open>_ - space . /\<close> and before an upper-case letter that
  follows a character which is not upper-case.
\<close>

theorem transformFieldValue_examples:
  "transformFieldValue ''first_name'' TransformCasePascal '' '' = ''First Name''
   \<and> transformFieldValue ''FirstName'' TransformCaseLower ''_'' = ''first_name''
   \<and> splitIntoWords ''first_name'' = [''first'', ''name'']
   \<and> splitIntoWords ''FirstName'' = [''First'', ''Name'']
   \<and> splitIntoWords ''a-b c.d/e'' = [''a'', ''b'', ''c'', ''d'', ''e'']
   \<and> splitIntoWords ''HTTPServer'' = [''HTTPServer'']
   \<and> {r. isSeparator r} = set ''_- ./''"
proof -
  have "{r. isSeparator r} = set ''_- ./''" by (auto simp: isSeparator_def)
  moreover have "transformFieldValue ''first_name'' TransformCasePascal '' '' = ''First Name''"
    by code_simp
  moreover have "transformFieldValue ''FirstName'' TransformCaseLower ''_'' = ''first_name''"
    by code_simp
  moreover have "splitIntoWords ''first_name'' = [''first'', ''name'']" by code_simp
  moreover have "splitIntoWords ''FirstName'' = [''First'', ''Name'']" by code_simp
  moreover have "splitIntoWords ''a-b c.d/e'' = [''a'', ''b'', ''c'', ''d'', ''e'']" by code_simp
  moreover have "splitIntoWords ''HTTPServer'' = [''HTTPServer'']" by code_simp
  ultimately show ?thesis by blast
qed

text \<open>
  C8, as stated: the pascal format returns unchanged every concatenation of words that are
  an upper-case letter followed by characters that are not upper-case.  It fails on the
  word \<open>A_b\<close>, whose underscore is a separator: the result is \<open>AB\<close>.
\<close>

theorem pascal_idempotent_counterexample:
  "specPascalWord ''A_b''
   \<and> toPascalCase ''A_b'' = ''AB''
   \<and> buildName [] ''A_b'' [] [] ConstantFormatPascal = ''AB''"
proof -
  have "specPascalWord ''A_b''" by code_simp
  moreover have "toPascalCase ''A_b'' = ''AB''" by code_simp
  moreover have "buildName [] ''A_b'' [] [] ConstantFormatPascal = ''AB''" by code_simp
  ultimately show ?thesis by blast
qed

text \<open>
  C8, amended: the pascal format returns unchanged every concatenation of words that are
  an upper-case letter followed by lower-case letters and digits, each word but the last
  having at least one such character after its capital.
\<close>

theorem toPascalCase_idem:
  "pascalWords ws \<Longrightarrow> toPascalCase (concat ws) = concat ws
     \<and> buildName [] (concat ws) [] [] ConstantFormatPascal = concat ws"
proof -
  assume a: "pascalWords ws"
  have sl: "splitLoop [] [] (CHR 0x00) (concat ws) = ws"
    using splitLoop_words [OF a, of "[]" "CHR 0x00" "[]"] by simp
  have s: "concat ws \<noteq> [] \<Longrightarrow> splitIntoWords (concat ws) = ws"
    unfolding splitIntoWords_def using sl by (simp only: if_False)
  have p: "toPascalCase (concat ws) = concat ws"
  proof (cases "concat ws = []")
    case True
    then show ?thesis by (simp add: toPascalCase_def)
  next
    case False
    then have "ws \<noteq> []" by auto
    then show ?thesis
      using False s concat_Title [OF pascalWords_all [OF a]]
      by (simp add: toPascalCase_def arrayToPascalCase_def)
  qed
  have "buildName [] m [] [] ConstantFormatPascal = toPascalCase m" for m
    by (cases "m = []")
       (simp_all add: buildName_def ConstantFormatPascal_def ConstantFormatCamel_def toPascalCase_def)
  then have b: "buildName [] (concat ws) [] [] ConstantFormatPascal = toPascalCase (concat ws)" .
  show ?thesis using p b by simp
qed

theorem toPascalCase_idem_witness:
  "pascalWords [''First'', ''Name2'']
   \<and> toPascalCase ''FirstName2'' = ''FirstName2''
   \<and> buildName [] ''FirstName2'' [] [] ConstantFormatPascal = ''FirstName2''"
proof -
  have h: "pascalWords [''First'', ''Name2'']" by code_simp
  show ?thesis using h toPascalCase_idem [OF h] by simp
qed

subsection \<open>Inclusion policy\<close>

lemma checkCommentGroup_none:
  "\<forall>c \<in> set cg. \<not> Contains c ''constago:include'' \<and> \<not> Contains c ''constago:exclude'' \<Longrightarrow>
   checkCommentGroup cg (False, False) = (False, False)"
proof (induction cg)
  case Nil
  then show ?case by (simp add: checkCommentGroup_def)
next
  case (Cons c cg)
  then have "\<not> Contains (TrimSpace c) ''constago:include''" "\<not> Contains (TrimSpace c) ''constago:exclude''"
    using Contains_TrimSpace by auto
  then show ?case using Cons by (simp add: checkCommentGroup_def Let_def)
qed

text \<open>
  C2.  A struct whose doc comments hold neither directive is included exactly when
  struct-explicit mode is off and the struct is exported or unexported structs are
  included; no error is recorded.  This holds for every struct name: \<open>exported\<close> stands
  for \<open>ast.IsExported\<close>.
\<close>

theorem mustIncludeStruct_no_directive:
  assumes "\<forall>c \<in> set (DeclDoc d @ SpecDoc d).
             \<not> Contains c ''constago:include'' \<and> \<not> Contains c ''constago:exclude''"
  shows "mustIncludeStruct exported config m d filePath =
           (\<not> isExplicit (Struct (Input config)) \<and>
              (isIncludeUnexported (Struct (Input config)) \<or> exported (StructName d)), m)"
proof -
  have "structDirectives d = (False, False)"
    using assms checkCommentGroup_none [of "DeclDoc d"] checkCommentGroup_none [of "SpecDoc d"]
    by (simp add: structDirectives_def)
  then show ?thesis by (auto simp: mustIncludeStruct_def)
qed

theorem mustIncludeStruct_no_directive_witness:
  "DeclDoc userDecl @ SpecDoc userDecl = [''// User is a person'']
   \<and> \<not> Contains ''// User is a person'' ''constago:include''
   \<and> \<not> Contains ''// User is a person'' ''constago:exclude''
   \<and> asciiExported (StructName userDecl)
   \<and> mustIncludeStruct asciiExported sampleConfig NewModel userDecl ''user.go'' = (True, NewModel)"
proof -
  have d: "DeclDoc userDecl @ SpecDoc userDecl = [''// User is a person'']"
    by (simp add: userDecl_def)
  have c: "\<not> Contains ''// User is a person'' ''constago:include''"
    "\<not> Contains ''// User is a person'' ''constago:exclude''"
    by simp_all
  have h: "\<forall>c \<in> set (DeclDoc userDecl @ SpecDoc userDecl).
      \<not> Contains c ''constago:include'' \<and> \<not> Contains c ''constago:exclude''"
    using d c by simp
  have e: "\<not> isExplicit (Struct (Input sampleConfig)) \<and> asciiExported (StructName userDecl)"
    by (simp add: isExplicit_def sampleConfig_def sampleInput_def asciiExported_def userDecl_def
        isUpper_def code_def)
  show ?thesis
    using d c e
      mustIncludeStruct_no_directive [OF h, of asciiExported sampleConfig NewModel "''user.go''"]
    by simp
qed


lemma AddStruct_Errors:
  "AddStruct s packagePath packageName sm s' \<Longrightarrow> Errors (snd s') = Errors (snd s)"
  by (induction rule: AddStruct.induct)
     (auto simp: ensurePackage_def Let_def split: option.splits)



subsection \<open>Source walker\<close>

lemma splitOn_not_Nil: "splitOn c s \<noteq> []"
  by (induction s) (auto split: list.splits)

lemma splitOn_no_sep: "c \<notin> set t \<Longrightarrow> splitOn c t = [t]"
  by (induction t) auto

lemma splitOn_append_tail:
  "c \<notin> set t \<Longrightarrow> splitOn c (x @ t) = butlast (splitOn c x) @ [last (splitOn c x) @ t]"
proof (induction x)
  case Nil
  then show ?case by (simp add: splitOn_no_sep)
next
  case (Cons y ys)
  obtain w ws where S: "splitOn c ys = w # ws"
    using splitOn_not_Nil [of c ys] by (cases "splitOn c ys") auto
  have IH: "splitOn c (ys @ t) = butlast (w # ws) @ [last (w # ws) @ t]"
    using Cons S by simp
  show ?case
  proof (cases "y = c")
    case True
    then show ?thesis using IH S by simp
  next
    case False
    then show ?thesis using IH S by (cases ws) auto
  qed
qed

lemma Join_snoc: "Join (xs @ [e]) sep = (if xs = [] then e else Join xs sep @ sep @ e)"
  by (induction xs sep rule: Join.induct) auto

lemma Clean_go:
  assumes "HasSuffix path ''.go''"
  shows "HasSuffix (Clean path) ''.go''"
proof -
  from assms obtain x where p: "path = x @ ''.go''" unfolding HasSuffix_iff by blast
  let ?S = "splitOn (CHR ''/'') x"
  let ?e = "last ?S @ ''.go''"
  have sp: "splitOn (CHR ''/'') path = butlast ?S @ [?e]"
    unfolding p by (rule splitOn_append_tail) simp
  have e: "?e \<noteq> []" "?e \<noteq> ''.''" "?e \<noteq> ''..''" by simp_all
  define rooted where "rooted = (hd path = CHR ''/'')"
  define stack where "stack = foldl (cleanStep rooted) [] (butlast ?S)"
  have "foldl (cleanStep rooted) [] (splitOn (CHR ''/'') path) = cleanStep rooted stack ?e"
    unfolding sp stack_def by simp
  also have "\<dots> = stack @ [?e]" using e by (simp add: cleanStep_def)
  finally have f: "foldl (cleanStep rooted) [] (splitOn (CHR ''/'') path) = stack @ [?e]" .
  have "\<exists>r. Join (stack @ [?e]) ''/'' = r @ ''.go''"
  proof (cases "stack = []")
    case True
    then show ?thesis by (simp add: Join_snoc)
  next
    case False
    then have "Join (stack @ [?e]) ''/'' = (Join stack ''/'' @ ''/'' @ last ?S) @ ''.go''"
      by (simp add: Join_snoc)
    then show ?thesis by blast
  qed
  then obtain r where j: "Join (stack @ [?e]) ''/'' = r @ ''.go''" by blast
  have ne: "path \<noteq> []" using p by simp
  have "Clean path = (if rooted then ''/'' else []) @ r @ ''.go''"
    using ne f j by (simp add: Clean_def Let_def rooted_def [symmetric])
  then have "Clean path = ((if rooted then ''/'' else []) @ r) @ ''.go''" by simp
  then show ?thesis unfolding HasSuffix_iff by blast
qed

lemma filepathJoin_go:
  assumes "HasSuffix m ''.go''"
  shows "HasSuffix (filepathJoin [dir, m]) ''.go''"
proof -
  from assms obtain x where m: "m = x @ ''.go''" unfolding HasSuffix_iff by blast
  show ?thesis
  proof (cases "dir = []")
    case True
    then have "filepathJoin [dir, m] = Clean m" using m by simp
    then show ?thesis using Clean_go [OF assms] by simp
  next
    case False
    have "HasSuffix (dir @ ''/'' @ m) ''.go''"
      unfolding HasSuffix_iff using m by (intro exI [of _ "dir @ ''/'' @ x"]) simp
    then have "HasSuffix (Clean (dir @ ''/'' @ m)) ''.go''" by (rule Clean_go)
    then show ?thesis using False by simp
  qed
qed

lemma walkLoop_go:
  "\<forall>p \<in> set files. HasSuffix p ''.go'' \<Longrightarrow>
   \<forall>p \<in> set (fst (walkLoop env packageName files es)). HasSuffix p ''.go''"
proof (induction es arbitrary: files)
  case Nil
  then show ?case by simp
next
  case (Cons e es)
  show ?case
  proof (cases "WalkErr e")
    case (Some err)
    then show ?thesis using Cons.prems by simp
  next
    case None
    show ?thesis
    proof (cases "\<not> WalkIsDir e \<and> HasSuffix (WalkPath e) ''.go''
                  \<and> ParsePackageClause env (WalkPath e) = Some packageName")
      case True
      then have "\<forall>p \<in> set (files @ [WalkPath e]). HasSuffix p ''.go''" using Cons.prems by simp
      from Cons.IH [OF this] show ?thesis using None True by simp
    next
      case False
      then have "walkLoop env packageName files (e # es) = walkLoop env packageName files es"
        using None by (auto split: option.splits)
      then show ?thesis using Cons.IH [OF Cons.prems] by simp
    qed
  qed
qed

lemma expandPattern_go:
  "\<forall>p \<in> set (fst (expandPattern env config pattern)). HasSuffix p ''.go''"
proof (cases "HasPrefix pattern ''package:''")
  case True
  then show ?thesis
    using walkLoop_go [of "[]" env "TrimPrefix pattern ''package:''" "Walk env (Dir (Input config))"]
    by (simp add: expandPattern_def findPackageFiles_def)
next
  case False
  then show ?thesis
    by (cases "Glob env (Dir (Input config)) pattern")
       (auto simp: expandPattern_def filepathJoin_go simp del: filepathJoin.simps)
qed

lemma includeLoop_go:
  "includeLoop env config mustExclude includeSet incl = Inr result \<Longrightarrow>
   \<forall>p \<in> includeSet. HasSuffix p ''.go'' \<Longrightarrow> \<forall>p \<in> result. HasSuffix p ''.go''"
proof (induction incl arbitrary: includeSet)
  case Nil
  then show ?case by simp
next
  case (Cons i rest)
  obtain paths err where e: "expandPattern env config i = (paths, err)"
    by (cases "expandPattern env config i")
  have g: "\<forall>p \<in> set paths. HasSuffix p ''.go''" using expandPattern_go [of env config i] e by simp
  show ?case
  proof (cases err)
    case None
    let ?S = "includeSet \<union> {p \<in> set paths. p \<notin> mustExclude}"
    have r: "includeLoop env config mustExclude ?S rest = Inr result"
      using Cons.prems(1) e None by simp
    have "\<forall>p \<in> ?S. HasSuffix p ''.go''" using Cons.prems(2) g by auto
    from Cons.IH [OF r this] show ?thesis .
  next
    case (Some x)
    then show ?thesis using Cons.prems(1) e by simp
  qed
qed

text \<open>
  C10.  Every path that the expansion of a pattern returns ends in \<open>.go\<close>, for a glob
  pattern and for a package pattern alike, and so does every path of the file list that
  \<open>findFiles\<close> hands to the scanner.
\<close>

theorem walker_go_files:
  "(\<forall>p \<in> set (fst (expandPattern env config pattern)). HasSuffix p ''.go'')
   \<and> (findFiles env config (Inr files) \<longrightarrow> (\<forall>p \<in> set files. HasSuffix p ''.go''))"
proof (intro conjI impI)
  show "\<forall>p \<in> set (fst (expandPattern env config pattern)). HasSuffix p ''.go''"
    by (rule expandPattern_go)
next
  assume "findFiles env config (Inr files)"
  then obtain includeSet where i: "includeSetOf env config = Inr includeSet"
    and s: "set files = includeSet"
    by cases auto
  from i obtain mustExclude where
    "includeLoop env config mustExclude {} (Include (Input config)) = Inr includeSet"
    by (auto simp: includeSetOf_def split: sum.splits)
  from includeLoop_go [OF this] have "\<forall>p \<in> includeSet. HasSuffix p ''.go''" by simp
  then show "\<forall>p \<in> set files. HasSuffix p ''.go''" using s by simp
qed

theorem walker_go_files_witness:
  "fst (expandPattern sampleEnv sampleConfig ''**/*'') = [''user.go'']
   \<and> fst (expandPattern sampleEnv sampleConfig ''package:models'') = [''user.go'']
   \<and> HasSuffix ''user.go'' ''.go''
   \<and> findFiles sampleEnv sampleConfig (Inr [''user.go''])"
proof -
  have a: "expandPattern sampleEnv sampleConfig ''**/*'' = ([''user.go''], None)"
    by code_simp
  have g: "expandPattern sampleEnv sampleConfig ''**/*.go'' = ([''user.go''], None)"
    by code_simp
  have t: "expandPattern sampleEnv sampleConfig ''**/*_test.go'' = ([], None)"
    by code_simp
  have p: "expandPattern sampleEnv sampleConfig ''package:models'' = ([''user.go''], None)"
    by code_simp
  have s: "HasSuffix ''user.go'' ''.go''" by code_simp
  have "Include (Input sampleConfig) = [''**/*.go'']" "Exclude (Input sampleConfig) = [''**/*_test.go'']"
    by (simp_all add: sampleConfig_def sampleInput_def)
  then have i: "includeSetOf sampleEnv sampleConfig = Inr {''user.go''}"
    using g t by (simp add: includeSetOf_def)
  have f: "findFiles sampleEnv sampleConfig (Inr [''user.go''])"
    by (rule find_files [OF i]) simp_all
  show ?thesis
    using a p s f walker_go_files [of sampleEnv sampleConfig "''**/*''" "[''user.go'']"]
      walker_go_files [of sampleEnv sampleConfig "''package:models''" "[''user.go'']"]
    by simp
qed

subsection \<open>Parse failures\<close>

lemma mustIncludeStruct_Errors:
  "mustIncludeStruct exported config m d filePath = (b, m1) \<Longrightarrow> \<exists>es. Errors m1 = Errors m @ es"
  by (auto simp: mustIncludeStruct_def AddError_def Let_def split: prod.splits if_splits)

lemma scanStruct_Errors:
  assumes "scanStruct env config filePath packagePath packageName s d s'"
  shows "\<exists>es. Errors (snd s') = Errors (snd s) @ es"
  using assms
proof cases
  case (struct_dropped m m1 h)
  then show ?thesis using mustIncludeStruct_Errors [of "IsExported env" config m d filePath False m1] by simp
next
  case (struct_empty m m1 h h1 sm)
  then show ?thesis using mustIncludeStruct_Errors [of "IsExported env" config m d filePath True m1] by simp
next
  case (struct_added m m1 h h1 sm)
  from mustIncludeStruct_Errors [OF struct_added(2)]
  obtain es where "Errors m1 = Errors m @ es" by blast
  moreover have "Errors (snd s') = Errors m1"
    using AddStruct_Errors [OF struct_added(5)] by simp
  ultimately show ?thesis using struct_added(1) by simp
qed

lemma scanStructs_Errors:
  "scanStructs env config filePath packagePath packageName s ds s' \<Longrightarrow>
   \<exists>es. Errors (snd s') = Errors (snd s) @ es"
proof (induction rule: scanStructs.induct)
  case (structs_done env config filePath packagePath packageName s)
  then show ?case by simp
next
  case (structs_next env config filePath packagePath packageName s d s1 ds s')
  then obtain es1 es2 where "Errors (snd s1) = Errors (snd s) @ es1"
    "Errors (snd s') = Errors (snd s1) @ es2"
    using scanStruct_Errors by blast
  then have "Errors (snd s') = Errors (snd s) @ (es1 @ es2)" by simp
  then show ?case by blast
qed

lemma scanFile_Errors:
  assumes "scanFile env config s filePath r"
  shows "fst r = None \<and> (\<exists>es. Errors (snd (snd r)) = Errors (snd s) @ es)"
  using assms
proof cases
  case (file_parse_error err m1 m h)
  then show ?thesis by (simp add: AddError_def)
next
  case (file_parsed node m1 m h s')
  from scanStructs_Errors [OF file_parsed(5)]
  obtain es where "Errors (snd s') = Errors m1 @ es" by auto
  then show ?thesis using file_parsed by simp
qed

text \<open>
  C6, amended.  When a file fails to parse, \<open>scanFile\<close> has exactly one outcome: it
  returns no error, advances the file counter by one and appends one error with the file
  path, the line of the parse error and its message; nothing else of the model and
  nothing of the heap changes, and the loop over the files goes on with the remaining
  files from that state.  No call of \<open>scanFile\<close> returns an error, and each one only
  appends to the error list.
\<close>

theorem scanFile_parse_failure:
  "(ParseFile env filePath = Inl err \<longrightarrow>
      (scanFile env config (h, m) filePath r \<longleftrightarrow>
         r = (None, h, parseFailureModel m filePath err))
      \<and> (scanFilesLoop env config (h, m) (filePath # files) r' \<longleftrightarrow>
           scanFilesLoop env config (h, parseFailureModel m filePath err) files r'))
   \<and> (scanFile env config s0 file (e, s1) \<longrightarrow>
        e = None \<and> (\<exists>es. Errors (snd s1) = Errors (snd s0) @ es))"
proof -
  let ?m = "parseFailureModel m filePath err"
  have one: "scanFile env config (h, m) filePath r \<longleftrightarrow> r = (None, h, ?m)"
    and loop: "scanFilesLoop env config (h, m) (filePath # files) r' \<longleftrightarrow>
               scanFilesLoop env config (h, ?m) files r'"
    if p: "ParseFile env filePath = Inl err"
  proof -
    have intro: "scanFile env config (h, m) filePath (None, h, ?m)"
      using file_parse_error [OF p refl, of config h m]
      by (simp add: parseFailureModel_def AddError_def)
    have elim: "x = (None, h, ?m)" if "scanFile env config (h, m) filePath x" for x
      using that p by cases (simp_all add: parseFailureModel_def AddError_def)
    show "scanFile env config (h, m) filePath r \<longleftrightarrow> r = (None, h, ?m)"
      using intro elim by blast
    show "scanFilesLoop env config (h, m) (filePath # files) r' \<longleftrightarrow>
          scanFilesLoop env config (h, ?m) files r'"
    proof
      assume "scanFilesLoop env config (h, m) (filePath # files) r'"
      then show "scanFilesLoop env config (h, ?m) files r'"
      proof cases
        case (files_error err' s1)
        then show ?thesis using elim by blast
      next
        case (files_next s1)
        then show ?thesis using elim by blast
      qed
    next
      assume "scanFilesLoop env config (h, ?m) files r'"
      then show "scanFilesLoop env config (h, m) (filePath # files) r'"
        using files_next [OF intro] by blast
    qed
  qed
  have append: "e = None \<and> (\<exists>es. Errors (snd s1) = Errors (snd s0) @ es)"
    if "scanFile env config s0 file (e, s1)"
    using scanFile_Errors [OF that] by simp
  show ?thesis using one loop append by blast
qed

theorem scanFile_parse_failure_witness:
  "ParseFile sampleEnv ''bad.go'' = Inl (ScannerErrorList [7] ''7:1: expected declaration'')
   \<and> scanFile sampleEnv sampleConfig ([], NewModel) ''bad.go''
        (None, [], parseFailureModel NewModel ''bad.go'' (ScannerErrorList [7] ''7:1: expected declaration''))
   \<and> scanFilesLoop sampleEnv sampleConfig ([], NewModel) [''bad.go'']
        (None, [], parseFailureModel NewModel ''bad.go'' (ScannerErrorList [7] ''7:1: expected declaration''))
   \<and> Errors (parseFailureModel NewModel ''bad.go'' (ScannerErrorList [7] ''7:1: expected declaration''))
       = [\<lparr>ErrorFile = ''bad.go'', ErrorLine = 7,
           Message = ''failed to parse file: 7:1: expected declaration''\<rparr>]"
proof -
  let ?err = "ScannerErrorList [7] ''7:1: expected declaration''"
  have p: "ParseFile sampleEnv ''bad.go'' = Inl ?err" by (simp add: sampleEnv_def)
  have e: "Errors (parseFailureModel NewModel ''bad.go'' ?err)
       = [\<lparr>ErrorFile = ''bad.go'', ErrorLine = 7,
           Message = ''failed to parse file: 7:1: expected declaration''\<rparr>]"
    by (simp add: parseFailureModel_def NewModel_def errorLine_def errorText_def)
  have d: "scanFilesLoop sampleEnv sampleConfig ([], parseFailureModel NewModel ''bad.go'' ?err) []
        (None, [], parseFailureModel NewModel ''bad.go'' ?err)"
    by (rule files_done)
  show ?thesis
    using p e d
      scanFile_parse_failure [of sampleEnv "''bad.go''" ?err sampleConfig "[]" NewModel
        "(None, [], parseFailureModel NewModel ''bad.go'' ?err)" "[]"
        "(None, [], parseFailureModel NewModel ''bad.go'' ?err)"]
    by simp
qed

text \<open>
  C6, as stated: a file that fails to parse contributes nothing to the model but its one
  error.  The file counter has been advanced before the parse, so the model after the
  call differs from the model before in more than the error list.
\<close>

theorem parse_failure_counterexample:
  "ParseFile sampleEnv ''bad.go'' = Inl (ScannerErrorList [7] ''7:1: expected declaration'')
   \<and> scanFile sampleEnv sampleConfig ([], NewModel) ''bad.go''
        (None, [], NewModel\<lparr>FilesScanned := 1,
           Errors := [\<lparr>ErrorFile = ''bad.go'', ErrorLine = 7,
                       Message = ''failed to parse file: 7:1: expected declaration''\<rparr>]\<rparr>)
   \<and> FilesScanned NewModel = 0
   \<and> NewModel\<lparr>FilesScanned := 1,
           Errors := [\<lparr>ErrorFile = ''bad.go'', ErrorLine = 7,
                       Message = ''failed to parse file: 7:1: expected declaration''\<rparr>]\<rparr>
      \<noteq> NewModel\<lparr>Errors := [\<lparr>ErrorFile = ''bad.go'', ErrorLine = 7,
                       Message = ''failed to parse file: 7:1: expected declaration''\<rparr>]\<rparr>"
proof -
  let ?err = "ScannerErrorList [7] ''7:1: expected declaration''"
  have p: "ParseFile sampleEnv ''bad.go'' = Inl ?err" by (simp add: sampleEnv_def)
  have "scanFile sampleEnv sampleConfig ([], NewModel) ''bad.go''
          (None, [], AddError (NewModel\<lparr>FilesScanned := FilesScanned NewModel + 1\<rparr>) ''bad.go''
             (errorLine ?err) (''failed to parse file: '' @ errorText ?err))"
    by (rule file_parse_error [OF p refl])
  then show ?thesis
    using p by (simp add: AddError_def NewModel_def errorLine_def errorText_def)
qed

subsection \<open>Getter assembler\<close>







lemma buildGetter_sameCaches:
  "sameCaches sc (snd (buildGetter field fieldName packageName (h, sc) g))"
  by (cases "buildReturns sc field fieldName packageName (h, []) (Returns g)")
     (auto simp: buildGetter_def Let_def sameCaches_def)

lemma buildGetter_rest:
  "Constants (structModel (snd (buildGetter field fieldName packageName (h, sc) g)))
      = Constants (structModel sc)
   \<and> Structs (structModel (snd (buildGetter field fieldName packageName (h, sc) g)))
      = Structs (structModel sc)"
  by (cases "buildReturns sc field fieldName packageName (h, []) (Returns g)")
     (auto simp: buildGetter_def Let_def)
















subsection \<open>Empty element values\<close>

lemma buildElement_empty:
  "computeElementValue get fieldName tagText el = [] \<Longrightarrow>
   buildElement get packageName fieldName tagText sc el = sc"
  by (simp add: buildElement_def)

text \<open>
  C9.  An element whose value for a field is empty writes nothing to the scan state
  (\<open>buildElement_empty\<close>), but the getter assembler does not read the field: it reads the
  caches, and these are keyed by the field name.  In the struct
  \<open>type User struct { _ int `json:"a"`; _ string }\<close>, scanned with unexported fields
  included, the element \<open>json\<close> in tag mode and a getter that returns \<open>json\<close>, the value
  of \<open>json\<close> for the second field is empty and the field yields no getter when it stands
  alone; after the first field it finds the constant cached under the name \<open>_\<close>, and the
  getter is added a second time, for the second field, with the constant of the first.
  The struct model holds one constant and two getters.
\<close>

theorem blank_fields_share_cache:
  "computeElementValue sampleTagGet ''_'' (fieldTagText blankPlain) jsonElement = []
   \<and> mustIncludeField asciiExported sampleTagGet sampleConfig blankPlain
   \<and> Elements sampleConfig = [jsonElement]
   \<and> Getters sampleConfig = [jsonGetter]
   \<and> Returns jsonGetter = [''json'']
   \<and> StructGetters (snd (buildStructModel asciiExported sampleTagGet sampleConfig ''user.go'' ''models'' []
         (blankDecl [blankPlain]))) = []
   \<and> length (StructGetters (snd (buildStructModel asciiExported sampleTagGet sampleConfig ''user.go'' ''models'' []
         (blankDecl [blankTagged])))) = 1
   \<and> Constants (snd (buildStructModel asciiExported sampleTagGet sampleConfig ''user.go'' ''models'' []
         (blankDecl [blankTagged, blankPlain])))
      = [\<lparr>ConstantName = ''JsonUser'', ConstantValue = ''a''\<rparr>]
   \<and> map GetterReturns
        (StructGetters (snd (buildStructModel asciiExported sampleTagGet sampleConfig ''user.go'' ''models'' []
           (blankDecl [blankTagged, blankPlain]))))
      = [[emptyReturn\<lparr>ReturnConstant := Some \<lparr>ConstantName = ''JsonUser'', ConstantValue = ''a''\<rparr>\<rparr>],
         [emptyReturn\<lparr>ReturnConstant := Some \<lparr>ConstantName = ''JsonUser'', ConstantValue = ''a''\<rparr>\<rparr>]]"
proof -
  have "computeElementValue sampleTagGet ''_'' (fieldTagText blankPlain) jsonElement = []"
    by code_simp
  moreover have "mustIncludeField asciiExported sampleTagGet sampleConfig blankPlain" by code_simp
  moreover have "Elements sampleConfig = [jsonElement]" "Getters sampleConfig = [jsonGetter]"
    by (simp_all add: sampleConfig_def)
  moreover have "Returns jsonGetter = [''json'']" by (simp add: jsonGetter_def)
  moreover have "StructGetters (snd (buildStructModel asciiExported sampleTagGet sampleConfig ''user.go''
         ''models'' [] (blankDecl [blankPlain]))) = []"
    by code_simp
  moreover have "length (StructGetters (snd (buildStructModel asciiExported sampleTagGet sampleConfig ''user.go''
         ''models'' [] (blankDecl [blankTagged])))) = 1"
    by code_simp
  moreover have "Constants (snd (buildStructModel asciiExported sampleTagGet sampleConfig ''user.go'' ''models'' []
         (blankDecl [blankTagged, blankPlain])))
      = [\<lparr>ConstantName = ''JsonUser'', ConstantValue = ''a''\<rparr>]"
    by code_simp
  moreover have "map GetterReturns
        (StructGetters (snd (buildStructModel asciiExported sampleTagGet sampleConfig ''user.go'' ''models'' []
           (blankDecl [blankTagged, blankPlain]))))
      = [[emptyReturn\<lparr>ReturnConstant := Some \<lparr>ConstantName = ''JsonUser'', ConstantValue = ''a''\<rparr>\<rparr>],
         [emptyReturn\<lparr>ReturnConstant := Some \<lparr>ConstantName = ''JsonUser'', ConstantValue = ''a''\<rparr>\<rparr>]]"
    by code_simp
  ultimately show ?thesis by blast
qed

subsection \<open>Import aliases\<close>

lemma frame_refl: "frame cur h h"
  by (simp add: frame_def)

lemma frame_trans: "frame cur h h1 \<Longrightarrow> frame cur h1 h2 \<Longrightarrow> frame cur h h2"
  by (simp add: frame_def)

lemma frame_alias: "cur < length h \<Longrightarrow> frame cur h (h[cur := (h ! cur)\<lparr>Alias := a\<rparr>])"
  by (simp add: frame_def)

lemma setRecursiveAlias_frame:
  "setRecursiveAlias h imps cur name h' \<Longrightarrow> frame cur h h'"
  "rangeImports h imps cur name ks h' \<Longrightarrow> frame cur h h'"
proof (induction rule: setRecursiveAlias_rangeImports.inducts)
  case (range_order ks imps h currentImport currentNameOrAlias h')
  then show ?case by simp
next
  case (range_done h imps currentImport currentNameOrAlias)
  then show ?case by (rule frame_refl)
next
  case (range_collision imps k imp h currentImport currentNameOrAlias h1 ks h')
  have "frame currentImport h (h[currentImport := (h ! currentImport)\<lparr>Alias := CHR ''_'' # currentNameOrAlias\<rparr>])"
    using range_collision.hyps(3) by (rule frame_alias)
  then show ?case using range_collision.IH frame_trans by blast
next
  case (range_no_collision imps k imp h currentImport currentNameOrAlias ks h')
  then show ?case by simp
qed

lemma collides_frame:
  assumes "frame cur h h'"
  shows "collides h' imps cur name = collides h imps cur name"
proof -
  have "(Path (h' ! imp) \<noteq> Path (h' ! cur) \<and> (Name (h' ! imp) = name \<or> Alias (h' ! imp) = name))
      = (Path (h ! imp) \<noteq> Path (h ! cur) \<and> (Name (h ! imp) = name \<or> Alias (h ! imp) = name))"
    for imp
    using assms by (cases "imp = cur") (auto simp: frame_def)
  then show ?thesis by (simp add: collides_def)
qed


lemma collides_hit: "collides h imps cur name \<longleftrightarrow> (\<exists>k. hit h imps cur name k)"
  by (auto simp: collides_def hit_def)

lemma hit_frame:
  assumes "frame cur h h'"
  shows "hit h' imps cur name k = hit h imps cur name k"
proof -
  have "(Path (h' ! imp) \<noteq> Path (h' ! cur) \<and> (Name (h' ! imp) = name \<or> Alias (h' ! imp) = name))
      = (Path (h ! imp) \<noteq> Path (h ! cur) \<and> (Name (h ! imp) = name \<or> Alias (h ! imp) = name))"
    for imp
    using assms by (cases "imp = cur") (auto simp: frame_def)
  then show ?thesis by (simp add: hit_def)
qed

lemma settled_frame:
  "frame cur h h' \<Longrightarrow> settled h' imps cur name a = settled h imps cur name a"
  by (simp add: settled_def collides_frame)

lemma underscores_Cons: "underscores n (CHR ''_'' # name) = underscores (Suc n) name"
  by (simp add: underscores_def replicate_app_Cons_same)

lemma underscores_0: "underscores 0 name = name"
  by (simp add: underscores_def)

lemma settled_first:
  assumes "collides h imps cur name" and "\<not> collides h imps cur (CHR ''_'' # name)"
  shows "settled h imps cur name (CHR ''_'' # name)"
proof -
  have "CHR ''_'' # name = underscores (Suc 0) name" by (simp add: underscores_def)
  moreover have "\<forall>j \<le> 0. collides h imps cur (underscores j name)"
    using assms(1) by (simp add: underscores_0)
  ultimately show ?thesis using assms(2) unfolding settled_def by metis
qed

lemma settled_next:
  assumes "collides h imps cur name" and "settled h imps cur (CHR ''_'' # name) a"
  shows "settled h imps cur name a"
proof -
  from assms(2) obtain n where a: "a = underscores (Suc n) (CHR ''_'' # name)"
    and nc: "\<not> collides h imps cur a"
    and all: "\<forall>j \<le> n. collides h imps cur (underscores j (CHR ''_'' # name))"
    unfolding settled_def by blast
  have a': "a = underscores (Suc (Suc n)) name" using a by (simp add: underscores_Cons)
  have "collides h imps cur (underscores j name)" if "j \<le> Suc n" for j
  proof (cases j)
    case 0
    then show ?thesis using assms(1) by (simp add: underscores_0)
  next
    case (Suc i)
    then have "i \<le> n" using that by simp
    then show ?thesis using all Suc by (simp add: underscores_Cons)
  qed
  then show ?thesis using a' nc unfolding settled_def by blast
qed

lemma setRecursiveAlias_result:
  "setRecursiveAlias h imps cur name h' \<Longrightarrow>
     (if collides h imps cur name then settled h imps cur name (Alias (h' ! cur))
      else h' = h)"
  "rangeImports h imps cur name ks h' \<Longrightarrow>
     (if \<exists>k \<in> set ks. hit h imps cur name k then settled h imps cur name (Alias (h' ! cur))
      else h' = h)"
proof (induction rule: setRecursiveAlias_rangeImports.inducts)
  case (range_order ks imps h currentImport currentNameOrAlias h')
  have "collides h imps currentImport currentNameOrAlias
          \<longleftrightarrow> (\<exists>k \<in> set ks. hit h imps currentImport currentNameOrAlias k)"
    using range_order.hyps(2) by (auto simp: collides_hit hit_def)
  then show ?case using range_order.IH by simp
next
  case (range_done h imps currentImport currentNameOrAlias)
  then show ?case by simp
next
  case (range_collision imps k imp h currentImport currentNameOrAlias h1 ks h')
  let ?h0 = "h[currentImport := (h ! currentImport)\<lparr>Alias := CHR ''_'' # currentNameOrAlias\<rparr>]"
  let ?name' = "CHR ''_'' # currentNameOrAlias"
  have f0: "frame currentImport h ?h0" using range_collision.hyps(3) by (rule frame_alias)
  have f1: "frame currentImport ?h0 h1"
    using range_collision.hyps(5) by (rule setRecursiveAlias_frame(1))
  have f01: "frame currentImport h h1" using f0 f1 by (rule frame_trans)
  have hk: "hit h imps currentImport currentNameOrAlias k"
    using range_collision.hyps(1,4) by (auto simp: hit_def)
  then have col: "collides h imps currentImport currentNameOrAlias"
    by (auto simp: collides_hit)
  have a0: "Alias (?h0 ! currentImport) = ?name'" using range_collision.hyps(3) by simp
  have s1: "settled h imps currentImport currentNameOrAlias (Alias (h1 ! currentImport))"
  proof (cases "collides ?h0 imps currentImport ?name'")
    case True
    then have "settled ?h0 imps currentImport ?name' (Alias (h1 ! currentImport))"
      using range_collision.IH(1) by simp
    then have "settled h imps currentImport ?name' (Alias (h1 ! currentImport))"
      using settled_frame [OF f0] by simp
    then show ?thesis using col by (rule settled_next [rotated])
  next
    case False
    then have "h1 = ?h0" using range_collision.IH(1) by simp
    moreover have "\<not> collides h imps currentImport ?name'"
      using False collides_frame [OF f0] by simp
    ultimately show ?thesis using settled_first [OF col] a0 by simp
  qed
  have "settled h imps currentImport currentNameOrAlias (Alias (h' ! currentImport))"
  proof (cases "\<exists>k \<in> set ks. hit h1 imps currentImport currentNameOrAlias k")
    case True
    then have "settled h1 imps currentImport currentNameOrAlias (Alias (h' ! currentImport))"
      using range_collision.IH(2) by simp
    then show ?thesis using settled_frame [OF f01] by simp
  next
    case False
    then have "h' = h1" using range_collision.IH(2) by simp
    then show ?thesis using s1 by simp
  qed
  then show ?case using hk by auto
next
  case (range_no_collision imps k imp h currentImport currentNameOrAlias ks h')
  have "\<not> hit h imps currentImport currentNameOrAlias k"
    using range_no_collision.hyps(1,4) by (auto simp: hit_def)
  then show ?case using range_no_collision.IH by simp
qed


lemma renamable_frame: "frame cur h h' \<Longrightarrow> renamable h imps cur L \<Longrightarrow> renamable h' imps cur L"
  by (simp add: frame_def renamable_def)

lemma renamable_exists:
  assumes "cur < length h" and "\<forall>k imp. imps k = Some imp \<longrightarrow> imp < length h"
  shows "\<exists>L. renamable h imps cur L"
proof -
  let ?L = "sum_list (map (\<lambda>tp. length (Name tp) + length (Alias tp)) h)"
  have "length (Name (h ! a)) + length (Alias (h ! a)) \<le> ?L" if "a < length h" for a
  proof -
    have "length (Name (h ! a)) + length (Alias (h ! a))
            \<in> set (map (\<lambda>tp. length (Name tp) + length (Alias tp)) h)"
      using that by auto
    then show ?thesis by (simp add: member_le_sum_list del: set_map)
  qed
  then have "\<forall>a < length h. a \<noteq> cur \<longrightarrow> length (Name (h ! a)) \<le> ?L \<and> length (Alias (h ! a)) \<le> ?L"
    by (meson add_leE le_add2 order_trans le_add1)
  then show ?thesis using assms unfolding renamable_def by blast
qed

lemma collides_short:
  assumes "renamable h imps cur L" and "collides h imps cur name"
  shows "length name \<le> L"
proof -
  from assms(2) obtain k imp where i: "imps k = Some imp"
    and p: "Path (h ! imp) \<noteq> Path (h ! cur)"
    and n: "Name (h ! imp) = name \<or> Alias (h ! imp) = name"
    unfolding collides_def by blast
  have "imp < length h" "imp \<noteq> cur" using assms(1) i p by (auto simp: renamable_def)
  then have "length (Name (h ! imp)) \<le> L \<and> length (Alias (h ! imp)) \<le> L"
    using assms(1) by (simp add: renamable_def)
  then show ?thesis using n by auto
qed

lemma rangeImports_total:
  assumes step: "\<And>h1. renamable h1 imps cur L \<Longrightarrow> collides h1 imps cur name \<Longrightarrow>
                   \<exists>h2. setRecursiveAlias h1 imps cur (CHR ''_'' # name) h2"
  shows "renamable h imps cur L \<Longrightarrow> set ks \<subseteq> dom imps \<Longrightarrow>
         \<exists>h'. rangeImports h imps cur name ks h'"
proof (induction ks arbitrary: h)
  case Nil
  then show ?case using range_done by blast
next
  case (Cons k ks)
  from Cons.prems(2) obtain imp where i: "imps k = Some imp" by auto
  have il: "imp < length h" and cl: "cur < length h"
    using Cons.prems(1) i by (auto simp: renamable_def)
  show ?case
  proof (cases "Path (h ! imp) \<noteq> Path (h ! cur) \<and> (Name (h ! imp) = name \<or> Alias (h ! imp) = name)")
    case True
    let ?h0 = "h[cur := (h ! cur)\<lparr>Alias := CHR ''_'' # name\<rparr>]"
    have f0: "frame cur h ?h0" using cl by (rule frame_alias)
    have r0: "renamable ?h0 imps cur L" using renamable_frame [OF f0 Cons.prems(1)] .
    have "collides h imps cur name" using i True by (auto simp: collides_def)
    then have "collides ?h0 imps cur name" using collides_frame [OF f0] by simp
    from step [OF r0 this] obtain h1 where
      s: "setRecursiveAlias ?h0 imps cur (CHR ''_'' # name) h1" by blast
    have "frame cur ?h0 h1" using s by (rule setRecursiveAlias_frame(1))
    then have "renamable h1 imps cur L" using r0 renamable_frame by blast
    from Cons.IH [OF this] Cons.prems(2) obtain h' where
      "rangeImports h1 imps cur name ks h'" by auto
    from range_collision [OF i il cl True s this] show ?thesis by blast
  next
    case False
    from Cons.IH [OF Cons.prems(1)] Cons.prems(2) obtain h' where
      "rangeImports h imps cur name ks h'" by auto
    from range_no_collision [OF i il cl False this] show ?thesis by blast
  qed
qed

lemma setRecursiveAlias_total_bounded:
  "finite (dom imps) \<Longrightarrow> renamable h imps cur L \<Longrightarrow>
   \<exists>h'. setRecursiveAlias h imps cur name h'"
proof (induction "Suc L - length name" arbitrary: name h rule: less_induct)
  case less
  from less.prems(1) obtain ks where ks: "distinct ks" "set ks = dom imps"
    using finite_distinct_list by metis
  have step: "\<exists>h2. setRecursiveAlias h1 imps cur (CHR ''_'' # name) h2"
    if r: "renamable h1 imps cur L" and c: "collides h1 imps cur name" for h1
  proof -
    have "length name \<le> L" using collides_short [OF r c] .
    then have "Suc L - length (CHR ''_'' # name) < Suc L - length name" by simp
    from less.hyps [OF this less.prems(1) r] show ?thesis .
  qed
  have "\<exists>h'. rangeImports h imps cur name ks h'"
    using rangeImports_total [of imps cur L name h ks] step less.prems(2) ks(2) by blast
  then show ?case using range_order [OF ks] by blast
qed

lemma setRecursiveAlias_total:
  assumes "finite (dom imps)" and "cur < length h"
    and "\<forall>k imp. imps k = Some imp \<longrightarrow> imp < length h"
  shows "\<exists>h'. setRecursiveAlias h imps cur name h'"
  using renamable_exists [OF assms(2,3)] setRecursiveAlias_total_bounded [OF assms(1)] by blast


lemma valueAddrs_Nil: "valueAddrs [] = []"
  by (simp add: valueAddrs_def map_filter_simps)

lemma valueAddrs_Cons:
  "valueAddrs (r # rs) =
     (case ReturnValue r of None \<Rightarrow> valueAddrs rs | Some v \<Rightarrow> TypePackage v # valueAddrs rs)"
  by (simp add: valueAddrs_def map_filter_simps split: option.splits)

lemma effectiveId_not_collide:
  assumes "\<not> collides h imps cur x" and "imps q = Some b" and "Path (h ! b) \<noteq> Path (h ! cur)"
  shows "effectiveId (h ! b) \<noteq> x"
  using assms by (auto simp: collides_def effectiveId_def)

lemma wfImports_step:
  assumes wf: "wfImports h imps" and cl: "cur < length h"
    and new: "imps (Path (h ! cur)) = None" and nr: "cur \<notin> ran imps"
    and al: "Alias (h ! cur) = []"
    and s: "setRecursiveAlias h (imps(Path (h ! cur) \<mapsto> cur)) cur (Name (h ! cur)) h1"
  shows "wfImports h1 (imps(Path (h ! cur) \<mapsto> cur))"
proof -
  let ?p = "Path (h ! cur)"
  let ?imps1 = "imps(?p \<mapsto> cur)"
  have f: "frame cur h h1" using s by (rule setRecursiveAlias_frame(1))
  have old: "a \<noteq> cur \<and> a < length h \<and> Path (h ! a) = q \<and> h1 ! a = h ! a \<and> q \<noteq> ?p"
    if "imps q = Some a" for q a
  proof -
    have "a \<noteq> cur" using that nr by (auto simp: ran_def)
    moreover have "q \<noteq> ?p" using that new by auto
    ultimately show ?thesis using that wf f by (auto simp: wfImports_def frame_def)
  qed
  have fin: "finite (dom ?imps1)" using wf by (simp add: wfImports_def)
  have addr: "a < length h1 \<and> Path (h1 ! a) = q" if "?imps1 q = Some a" for q a
  proof (cases "q = ?p")
    case True
    then show ?thesis using that cl f by (simp add: frame_def)
  next
    case False
    then have "imps q = Some a" using that by simp
    then show ?thesis using old f by (simp add: frame_def)
  qed
  have curid: "effectiveId (h1 ! cur) \<noteq> effectiveId (h ! b)" if b: "imps q = Some b" for q b
  proof -
    have i1: "?imps1 q = Some b" using b old by simp
    have pb: "Path (h ! b) \<noteq> Path (h ! cur)" using old [OF b] by simp
    show ?thesis
    proof (cases "collides h ?imps1 cur (Name (h ! cur))")
      case True
      then have "settled h ?imps1 cur (Name (h ! cur)) (Alias (h1 ! cur))"
        using setRecursiveAlias_result(1) [OF s] by simp
      then obtain n where a: "Alias (h1 ! cur) = underscores (Suc n) (Name (h ! cur))"
        and nc: "\<not> collides h ?imps1 cur (Alias (h1 ! cur))"
        unfolding settled_def by metis
      have "Alias (h1 ! cur) \<noteq> []" using a by (simp add: underscores_def)
      then have "effectiveId (h1 ! cur) = Alias (h1 ! cur)" by (simp add: effectiveId_def)
      then show ?thesis using effectiveId_not_collide [OF nc i1 pb] by simp
    next
      case False
      then have "h1 = h" using setRecursiveAlias_result(1) [OF s] by simp
      then have "effectiveId (h1 ! cur) = Name (h ! cur)" using al by (simp add: effectiveId_def)
      then show ?thesis using effectiveId_not_collide [OF False i1 pb] by simp
    qed
  qed
  have ids: "effectiveId (h1 ! a) \<noteq> effectiveId (h1 ! b)"
    if a: "?imps1 p = Some a" and b: "?imps1 q = Some b" and ne: "p \<noteq> q" for p q a b
  proof (cases "p = ?p")
    case True
    then have "a = cur" "imps q = Some b" using a b ne by auto
    then show ?thesis using curid old by metis
  next
    case False
    then have ia: "imps p = Some a" using a by simp
    show ?thesis
    proof (cases "q = ?p")
      case True
      then have "b = cur" using b by simp
      then show ?thesis using curid [OF ia] old [OF ia] by metis
    next
      case False
      then have ib: "imps q = Some b" using b by simp
      have "effectiveId (h ! a) \<noteq> effectiveId (h ! b)"
        using wf ia ib ne unfolding wfImports_def by blast
      then show ?thesis using old [OF ia] old [OF ib] by simp
    qed
  qed
  show ?thesis unfolding wfImports_def using fin addr ids by blast
qed

lemma wfImports_other:
  assumes "wfImports h imps" and "length h' = length h" and "\<forall>a \<in> ran imps. h' ! a = h ! a"
  shows "wfImports h' imps"
proof -
  have "h' ! a = h ! a" if "imps p = Some a" for p a
    using that assms(3) by (auto simp: ran_def)
  then show ?thesis using assms(1,2) unfolding wfImports_def by metis
qed


lemma registerImports_inv:
  "registerImports h imps rs h' imps' \<Longrightarrow>
   wfImports h imps \<Longrightarrow> distinct (valueAddrs rs) \<Longrightarrow>
   \<forall>a \<in> set (valueAddrs rs). a < length h \<and> Alias (h ! a) = [] \<and> a \<notin> ran imps \<Longrightarrow>
   wfImports h' imps' \<and> length h' = length h
   \<and> (\<forall>a. a \<notin> set (valueAddrs rs) \<longrightarrow> h' ! a = h ! a)
   \<and> ran imps' \<subseteq> ran imps \<union> set (valueAddrs rs)"
proof (induction rule: registerImports.induct)
  case (register_done h imps)
  then show ?case by simp
next
  case (register_no_value r h imps rs h' imps')
  then show ?case by (simp add: valueAddrs_Cons)
next
  case (register_exists r v h imps rs h' imps')
  have va: "valueAddrs (r # rs) = TypePackage v # valueAddrs rs"
    using register_exists.hyps(1) by (simp add: valueAddrs_Cons)
  have "wfImports h' imps' \<and> length h' = length h
   \<and> (\<forall>a. a \<notin> set (valueAddrs rs) \<longrightarrow> h' ! a = h ! a)
   \<and> ran imps' \<subseteq> ran imps \<union> set (valueAddrs rs)"
    using register_exists.IH register_exists.prems va by simp
  then show ?case using va by auto
next
  case (register_new r v h imps imps1 h1 rs h' imps')
  let ?cur = "TypePackage v"
  have va: "valueAddrs (r # rs) = ?cur # valueAddrs rs"
    using register_new.hyps(1) by (simp add: valueAddrs_Cons)
  have cur: "?cur < length h" "Alias (h ! ?cur) = []" "?cur \<notin> ran imps"
    "?cur \<notin> set (valueAddrs rs)" "distinct (valueAddrs rs)"
    using register_new.prems va by simp_all
  have s: "setRecursiveAlias h (imps(Path (h ! ?cur) \<mapsto> ?cur)) ?cur (Name (h ! ?cur)) h1"
    using register_new.hyps(4,5) by simp
  have wf1: "wfImports h1 imps1"
    using wfImports_step [OF register_new.prems(1) cur(1) register_new.hyps(3) cur(3) cur(2) s]
      register_new.hyps(4) by simp
  have f: "frame ?cur h h1" using s by (rule setRecursiveAlias_frame(1))
  have ran1: "ran imps1 \<subseteq> ran imps \<union> {?cur}"
    using register_new.hyps(3,4) by (auto simp: ran_def)
  have pend: "\<forall>a \<in> set (valueAddrs rs). a < length h1 \<and> Alias (h1 ! a) = [] \<and> a \<notin> ran imps1"
  proof
    fix a assume a: "a \<in> set (valueAddrs rs)"
    then have "a \<noteq> ?cur" using cur(4) by auto
    moreover have "a < length h \<and> Alias (h ! a) = [] \<and> a \<notin> ran imps"
      using a register_new.prems(3) va by simp
    ultimately show "a < length h1 \<and> Alias (h1 ! a) = [] \<and> a \<notin> ran imps1"
      using f ran1 by (auto simp: frame_def)
  qed
  have IH: "wfImports h' imps' \<and> length h' = length h1
   \<and> (\<forall>a. a \<notin> set (valueAddrs rs) \<longrightarrow> h' ! a = h1 ! a)
   \<and> ran imps' \<subseteq> ran imps1 \<union> set (valueAddrs rs)"
    using register_new.IH [OF wf1 cur(5) pend] .
  have "\<forall>a. a \<notin> set (valueAddrs (r # rs)) \<longrightarrow> h' ! a = h ! a"
    using IH f va by (auto simp: frame_def)
  moreover have "ran imps' \<subseteq> ran imps \<union> set (valueAddrs (r # rs))"
    using IH ran1 va by auto
  moreover have "length h' = length h" using IH f by (simp add: frame_def)
  ultimately show ?case using IH by blast
qed

lemma ensurePackage_cases:
  assumes "ensurePackage m packagePath packageName = (pkg, m1)"
  shows "(Packages m packagePath = Some pkg \<and> m1 = m)
       \<or> (Packages m packagePath = None \<and> Imports pkg = Map.empty
          \<and> Packages m1 = (Packages m)(packagePath \<mapsto> pkg))"
  using assms by (auto simp: ensurePackage_def Let_def split: option.splits)

lemma AddStruct_inv:
  assumes "AddStruct s packagePath packageName sm s'"
    and wf: "modelWf s" and d: "distinct (valueAddrs (structReturns sm))"
    and u: "unregistered s (set (valueAddrs (structReturns sm)) \<union> B)"
    and disj: "set (valueAddrs (structReturns sm)) \<inter> B = {}"
  shows "modelWf s' \<and> unregistered s' B"
  using assms(1)
proof cases
  case (add_struct m pkg m1 h h' imports' pkg')
  let ?A = "set (valueAddrs (structReturns sm))"
  have wfp: "wfImports h (Imports pkg)"
    using ensurePackage_cases [OF add_struct(3)] wf add_struct(1)
    by (auto simp: modelWf_def wfImports_def)
  have nr: "a \<notin> ran (Imports pkg)" if "a \<in> ?A \<union> B" for a
    using ensurePackage_cases [OF add_struct(3)] u add_struct(1) that
    by (auto simp: unregistered_def)
  have pend: "\<forall>a \<in> ?A. a < length h \<and> Alias (h ! a) = [] \<and> a \<notin> ran (Imports pkg)"
    using u nr add_struct(1) by (auto simp: unregistered_def)
  from registerImports_inv [OF add_struct(4) wfp d pend]
  have wf': "wfImports h' imports'" and len: "length h' = length h"
    and same: "\<forall>a. a \<notin> ?A \<longrightarrow> h' ! a = h ! a"
    and ran': "ran imports' \<subseteq> ran (Imports pkg) \<union> ?A"
    by blast+
  have others: "Packages m q = Some x \<and> q \<noteq> packagePath"
    if "Packages m1 q = Some x" "q \<noteq> packagePath" for q x
    using ensurePackage_cases [OF add_struct(3)] that by auto
  have pk: "Packages (snd s') q =
              (if q = packagePath then Some pkg' else Packages m1 q)" for q
    using add_struct(2) by simp
  have mw: "modelWf s'"
    unfolding modelWf_def
  proof (intro allI impI)
    fix q x assume x: "Packages (snd s') q = Some x"
    show "wfImports (fst s') (Imports x)"
    proof (cases "q = packagePath")
      case True
      then have "x = pkg'" using x pk by simp
      then show ?thesis using wf' add_struct(2,5) by simp
    next
      case False
      then have mq: "Packages m q = Some x" using x pk others by simp
      then have w: "wfImports h (Imports x)" using wf add_struct(1) by (auto simp: modelWf_def)
      have "\<forall>a \<in> ran (Imports x). a \<notin> ?A"
        using u mq add_struct(1) by (auto simp: unregistered_def)
      then have "\<forall>a \<in> ran (Imports x). h' ! a = h ! a" using same by blast
      from wfImports_other [OF w len this] show ?thesis using add_struct(2) by simp
    qed
  qed
  have un: "unregistered s' B"
    unfolding unregistered_def
  proof (intro ballI conjI allI impI)
    fix a assume a: "a \<in> B"
    then have na: "a \<notin> ?A" using disj by auto
    have ua: "a < length h" "Alias (h ! a) = []"
      using u a add_struct(1) by (auto simp: unregistered_def)
    show "a < length (fst s')" using ua len add_struct(2) by simp
    show "Alias (fst s' ! a) = []" using ua same na add_struct(2) by simp
    fix q x assume x: "Packages (snd s') q = Some x"
    show "a \<notin> ran (Imports x)"
    proof (cases "q = packagePath")
      case True
      then have "x = pkg'" using x pk by simp
      then have "ran (Imports x) \<subseteq> ran (Imports pkg) \<union> ?A" using ran' add_struct(5) by simp
      then show ?thesis using nr [of a] a na by auto
    next
      case False
      then have "Packages m q = Some x" using x pk others by simp
      then show ?thesis using u a add_struct(1) by (auto simp: unregistered_def)
    qed
  qed
  show ?thesis using mw un by simp
qed

lemma callAddrs_Cons:
  "callAddrs ((packagePath, packageName, sm) # calls) = valueAddrs (structReturns sm) @ callAddrs calls"
  by (simp add: callAddrs_def)

lemma AddStructs_inv:
  "AddStructs s calls s' \<Longrightarrow> modelWf s \<Longrightarrow> distinct (callAddrs calls) \<Longrightarrow>
   unregistered s (set (callAddrs calls)) \<Longrightarrow> modelWf s'"
proof (induction rule: AddStructs.induct)
  case (calls_done s)
  then show ?case by simp
next
  case (calls_next s packagePath packageName sm s1 calls s')
  have d: "distinct (valueAddrs (structReturns sm))" "distinct (callAddrs calls)"
    "set (valueAddrs (structReturns sm)) \<inter> set (callAddrs calls) = {}"
    using calls_next.prems(2) by (simp_all add: callAddrs_Cons)
  have u: "unregistered s (set (valueAddrs (structReturns sm)) \<union> set (callAddrs calls))"
    using calls_next.prems(3) by (simp add: callAddrs_Cons)
  from AddStruct_inv [OF calls_next.hyps(1) calls_next.prems(1) d(1) u d(3)]
  have "modelWf s1" "unregistered s1 (set (callAddrs calls))" by simp_all
  then show ?case using calls_next.IH d(2) by simp
qed


lemma registerImports_total:
  "allocated h imps \<Longrightarrow> \<forall>a \<in> set (valueAddrs rs). a < length h \<Longrightarrow>
   \<exists>h' imps'. registerImports h imps rs h' imps' \<and> length h' = length h \<and> allocated h' imps'"
proof (induction rs arbitrary: h imps)
  case Nil
  then show ?case using register_done by blast
next
  case (Cons r rs)
  show ?case
  proof (cases "ReturnValue r")
    case None
    then have "\<forall>a \<in> set (valueAddrs rs). a < length h"
      using Cons.prems(2) by (simp add: valueAddrs_Cons)
    from Cons.IH [OF Cons.prems(1) this] obtain h' imps' where
      r: "registerImports h imps rs h' imps'" "length h' = length h" "allocated h' imps'" by blast
    from register_no_value [OF None r(1)] r(2,3) show ?thesis by blast
  next
    case (Some v)
    let ?cur = "TypePackage v"
    have cl: "?cur < length h" and rest: "\<forall>a \<in> set (valueAddrs rs). a < length h"
      using Cons.prems(2) Some by (simp_all add: valueAddrs_Cons)
    show ?thesis
    proof (cases "imps (Path (h ! ?cur)) = None")
      case False
      from Cons.IH [OF Cons.prems(1) rest] obtain h' imps' where
        r: "registerImports h imps rs h' imps'" "length h' = length h" "allocated h' imps'" by blast
      from register_exists [OF Some cl False r(1)] r(2,3) show ?thesis by blast
    next
      case True
      let ?imps1 = "imps(Path (h ! ?cur) \<mapsto> ?cur)"
      have a1: "allocated h ?imps1" using Cons.prems(1) cl by (simp add: allocated_def)
      then obtain h1 where s: "setRecursiveAlias h ?imps1 ?cur (Name (h ! ?cur)) h1"
        using setRecursiveAlias_total [of ?imps1 ?cur h] cl unfolding allocated_def by blast
      have l1: "length h1 = length h"
        using setRecursiveAlias_frame(1) [OF s] by (simp add: frame_def)
      have "allocated h1 ?imps1" using a1 l1 by (simp add: allocated_def)
      moreover have "\<forall>a \<in> set (valueAddrs rs). a < length h1" using rest l1 by simp
      ultimately obtain h' imps' where
        r: "registerImports h1 ?imps1 rs h' imps'" "length h' = length h1" "allocated h' imps'"
        using Cons.IH by blast
      from register_new [OF Some cl True refl s r(1)] r(2,3) l1 show ?thesis by auto
    qed
  qed
qed

lemma AddStruct_total:
  assumes "modelAllocated (h, m)" and "\<forall>a \<in> set (valueAddrs (structReturns sm)). a < length h"
  shows "\<exists>s'. AddStruct (h, m) packagePath packageName sm s' \<and> length (fst s') = length h
              \<and> modelAllocated s'"
proof -
  obtain pkg m1 where e: "ensurePackage m packagePath packageName = (pkg, m1)"
    by (cases "ensurePackage m packagePath packageName")
  have ap: "allocated h (Imports pkg)"
    using ensurePackage_cases [OF e] assms(1) by (auto simp: modelAllocated_def allocated_def)
  from registerImports_total [OF ap assms(2)] obtain h' imps' where
    r: "registerImports h (Imports pkg) (structReturns sm) h' imps'" "length h' = length h"
      "allocated h' imps'" by blast
  let ?pkg' = "pkg\<lparr>Imports := imps', PackageStructs := PackageStructs pkg @ [sm]\<rparr>"
  let ?m' = "m1\<lparr>Packages := (Packages m1)(packagePath \<mapsto> ?pkg'), StructsFound := StructsFound m1 + 1\<rparr>"
  have a: "AddStruct (h, m) packagePath packageName sm (h', ?m')"
    using add_struct [OF e r(1) refl] .
  have o: "Packages m q = Some x" if "Packages m1 q = Some x" "q \<noteq> packagePath" for q x
    using ensurePackage_cases [OF e] that by auto
  have "modelAllocated (h', ?m')"
    unfolding modelAllocated_def
  proof (intro allI impI)
    fix q x assume x: "Packages (snd (h', ?m')) q = Some x"
    show "allocated (fst (h', ?m')) (Imports x)"
    proof (cases "q = packagePath")
      case True
      then show ?thesis using x r(3) by auto
    next
      case False
      then have "Packages m q = Some x" using x o by simp
      then have "allocated h (Imports x)" using assms(1) by (auto simp: modelAllocated_def)
      then show ?thesis using r(2) by (simp add: allocated_def)
    qed
  qed
  then show ?thesis using a r(2) by (intro exI [of _ "(h', ?m')"]) simp
qed

lemma AddStructs_total:
  "modelAllocated s \<Longrightarrow> \<forall>a \<in> set (callAddrs calls). a < length (fst s) \<Longrightarrow>
   \<exists>s'. AddStructs s calls s'"
proof (induction calls arbitrary: s)
  case Nil
  then show ?case using calls_done by blast
next
  case (Cons c calls)
  obtain packagePath packageName sm where c: "c = (packagePath, packageName, sm)" by (cases c)
  obtain h m where s: "s = (h, m)" by (cases s)
  have "\<forall>a \<in> set (valueAddrs (structReturns sm)). a < length h"
    using Cons.prems(2) c s by (simp add: callAddrs_Cons)
  from AddStruct_total [OF _ this, of m packagePath packageName] Cons.prems(1) s
  obtain s1 where s1: "AddStruct (h, m) packagePath packageName sm s1" "length (fst s1) = length h"
    "modelAllocated s1" by blast
  have "\<forall>a \<in> set (callAddrs calls). a < length (fst s1)"
    using Cons.prems(2) c s s1(2) by (simp add: callAddrs_Cons)
  from Cons.IH [OF s1(3) this] obtain s' where "AddStructs s1 calls s'" by blast
  from calls_next [OF _ this] s1(1) s c show ?case by blast
qed

text \<open>
  C4.  From a fresh model, and with package objects that are pairwise distinct and carry no
  alias, every sequence of calls of \<open>AddStruct\<close> runs to an end, and after it, in every
  package, each import path is the key of the one object with that path and no two entries
  have the same effective identifier.
\<close>

theorem imports_invariant:
  "distinct (callAddrs calls) \<and> (\<forall>a \<in> set (callAddrs calls). a < length h \<and> Alias (h ! a) = []) \<longrightarrow>
     (\<exists>s'. AddStructs (h, NewModel) calls s')
     \<and> (\<forall>h' m' packagePath pkg.
           AddStructs (h, NewModel) calls (h', m') \<and> Packages m' packagePath = Some pkg \<longrightarrow>
           wfImports h' (Imports pkg))"
proof (intro impI conjI allI)
  assume a: "distinct (callAddrs calls) \<and> (\<forall>a \<in> set (callAddrs calls). a < length h \<and> Alias (h ! a) = [])"
  have "modelAllocated (h, NewModel)" by (simp add: modelAllocated_def NewModel_def)
  then show "\<exists>s'. AddStructs (h, NewModel) calls s'" using AddStructs_total a by fastforce
next
  fix h' m' packagePath pkg
  assume a: "distinct (callAddrs calls) \<and> (\<forall>a \<in> set (callAddrs calls). a < length h \<and> Alias (h ! a) = [])"
    and b: "AddStructs (h, NewModel) calls (h', m') \<and> Packages m' packagePath = Some pkg"
  have w: "modelWf (h, NewModel)" by (simp add: modelWf_def NewModel_def)
  have u: "unregistered (h, NewModel) (set (callAddrs calls))"
    using a by (simp add: unregistered_def NewModel_def)
  have "modelWf (h', m')" using AddStructs_inv [OF _ w _ u] a b by blast
  then show "wfImports h' (Imports pkg)" using b by (auto simp: modelWf_def)
qed


lemma registerImports_none:
  "registerImports h imps rs h' imps' \<Longrightarrow> valueAddrs rs = [] \<Longrightarrow> h' = h \<and> imps' = imps"
  by (induction rule: registerImports.induct) (simp_all add: valueAddrs_Cons)

lemma registerImports_single:
  "registerImports h imps rs h' imps' \<Longrightarrow> valueAddrs rs = [a] \<Longrightarrow>
   imps (Path (h ! a)) = None \<Longrightarrow>
   imps' = imps(Path (h ! a) \<mapsto> a)
   \<and> setRecursiveAlias h (imps(Path (h ! a) \<mapsto> a)) a (Name (h ! a)) h'"
proof (induction rule: registerImports.induct)
  case (register_done h imps)
  then show ?case by (simp add: valueAddrs_Nil)
next
  case (register_no_value r h imps rs h' imps')
  then show ?case by (simp add: valueAddrs_Cons)
next
  case (register_exists r v h imps rs h' imps')
  then show ?case by (simp add: valueAddrs_Cons)
next
  case (register_new r v h imps imps1 h1 rs h' imps')
  have va: "TypePackage v = a" "valueAddrs rs = []"
    using register_new.prems(1) register_new.hyps(1) by (simp_all add: valueAddrs_Cons)
  have e: "h' = h1" "imps' = imps1"
    using registerImports_none [OF register_new.hyps(6) va(2)] by simp_all
  have i: "imps1 = imps(Path (h ! a) \<mapsto> a)" using register_new.hyps(4) va(1) by simp
  have "setRecursiveAlias h imps1 a (Name (h ! a)) h1" using register_new.hyps(5) va(1) by simp
  then have "setRecursiveAlias h (imps(Path (h ! a) \<mapsto> a)) a (Name (h ! a)) h'"
    unfolding i e(1) .
  then show ?case unfolding e(2) i by (rule conjI [OF refl])
qed

lemma AddStruct_single:
  assumes "AddStruct (h, m) packagePath packageName sm (h', m')"
    and "valueAddrs (structReturns sm) = [a]"
    and "imps = (case Packages m packagePath of None \<Rightarrow> Map.empty | Some pkg \<Rightarrow> Imports pkg)"
    and "imps (Path (h ! a)) = None"
  shows "(\<exists>pkg'. Packages m' packagePath = Some pkg' \<and> Imports pkg' = imps(Path (h ! a) \<mapsto> a))
         \<and> setRecursiveAlias h (imps(Path (h ! a) \<mapsto> a)) a (Name (h ! a)) h'"
  using assms(1)
proof cases
  case (add_struct pkg m1 imports' pkg')
  have "Imports pkg = imps"
    using ensurePackage_cases [OF add_struct(2)] assms(3) by auto
  then have "imports' = imps(Path (h ! a) \<mapsto> a)
      \<and> setRecursiveAlias h (imps(Path (h ! a) \<mapsto> a)) a (Name (h ! a)) h'"
    using registerImports_single [OF add_struct(3) assms(2)] assms(4) by simp
  then show ?thesis using add_struct(1,4) by simp
qed

lemma settled_unique:
  assumes "settled h imps cur name a"
    and "\<not> collides h imps cur (underscores (Suc n) name)"
    and "\<forall>j \<le> n. collides h imps cur (underscores j name)"
  shows "a = underscores (Suc n) name"
proof -
  from assms(1) obtain k where a: "a = underscores (Suc k) name"
    and nc: "\<not> collides h imps cur (underscores (Suc k) name)"
    and all: "\<forall>j \<le> k. collides h imps cur (underscores j name)"
    unfolding settled_def by blast
  have "\<not> k < n" using nc assms(3) by (metis Suc_leI)
  moreover have "\<not> n < k" using assms(2) all by (metis Suc_leI)
  ultimately show ?thesis using a by simp
qed

lemma three_imports:
  assumes a: "a1 < length h" "a2 < length h" "a3 < length h"
    and c: "h ! a1 = \<lparr>Path = p1, Name = n, Alias = []\<rparr>"
      "h ! a2 = \<lparr>Path = p2, Name = n, Alias = []\<rparr>"
      "h ! a3 = \<lparr>Path = p3, Name = n, Alias = []\<rparr>"
    and p: "p1 \<noteq> p2" "p1 \<noteq> p3" "p2 \<noteq> p3"
    and m: "Packages m packagePath = None"
    and v: "valueAddrs (structReturns sm1) = [a1]" "valueAddrs (structReturns sm2) = [a2]"
      "valueAddrs (structReturns sm3) = [a3]"
    and run: "AddStructs (h, m) [(packagePath, n1, sm1), (packagePath, n2, sm2), (packagePath, n3, sm3)]
               (h', m')"
  shows "(\<exists>pkg. Packages m' packagePath = Some pkg
            \<and> Imports pkg = [p1 \<mapsto> a1, p2 \<mapsto> a2, p3 \<mapsto> a3])
         \<and> Alias (h' ! a1) = [] \<and> Alias (h' ! a2) = CHR ''_'' # n
         \<and> Alias (h' ! a3) = CHR ''_'' # CHR ''_'' # n"
proof -
  have ne: "a1 \<noteq> a2" "a1 \<noteq> a3" "a2 \<noteq> a3" using c p by auto
  from run obtain s1 where r1: "AddStruct (h, m) packagePath n1 sm1 s1"
    and run2: "AddStructs s1 [(packagePath, n2, sm2), (packagePath, n3, sm3)] (h', m')"
    by cases auto
  from run2 obtain s2 where r2: "AddStruct s1 packagePath n2 sm2 s2"
    and run3: "AddStructs s2 [(packagePath, n3, sm3)] (h', m')"
    by cases auto
  from run3 obtain s3 where r3: "AddStruct s2 packagePath n3 sm3 s3"
    and run4: "AddStructs s3 [] (h', m')"
    by cases auto
  from run4 have s3: "s3 = (h', m')" by cases auto
  obtain h1 m1 where s1: "s1 = (h1, m1)" by (cases s1)
  obtain h2 m2 where s2: "s2 = (h2, m2)" by (cases s2)
  \<comment> \<open>first import\<close>
  let ?i1 = "[p1 \<mapsto> a1]"
  have "(\<exists>pkg'. Packages m1 packagePath = Some pkg' \<and> Imports pkg' = Map.empty(Path (h ! a1) \<mapsto> a1))
         \<and> setRecursiveAlias h (Map.empty(Path (h ! a1) \<mapsto> a1)) a1 (Name (h ! a1)) h1"
    using AddStruct_single [OF _ v(1), of h m packagePath n1 h1 m1 Map.empty] r1 s1 m by simp
  then obtain pkg1 where k1: "Packages m1 packagePath = Some pkg1" "Imports pkg1 = ?i1"
    and q1: "setRecursiveAlias h ?i1 a1 n h1"
    using c(1) by auto
  have "\<not> collides h ?i1 a1 n" by (auto simp: collides_def split: if_splits)
  then have h1: "h1 = h" using setRecursiveAlias_result(1) [OF q1] by simp
  \<comment> \<open>second import\<close>
  let ?i2 = "[p1 \<mapsto> a1, p2 \<mapsto> a2]"
  have "(\<exists>pkg'. Packages m2 packagePath = Some pkg' \<and> Imports pkg' = ?i1(Path (h1 ! a2) \<mapsto> a2))
         \<and> setRecursiveAlias h1 (?i1(Path (h1 ! a2) \<mapsto> a2)) a2 (Name (h1 ! a2)) h2"
    using AddStruct_single [OF _ v(2), of h1 m1 packagePath n2 h2 m2 ?i1] r2 s1 s2 k1 h1 c(2) p
    by simp
  then obtain pkg2 where k2: "Packages m2 packagePath = Some pkg2" "Imports pkg2 = ?i2"
    and q2: "setRecursiveAlias h ?i2 a2 n h2"
    using c(2) h1 by auto
  have c20: "collides h ?i2 a2 n"
    unfolding collides_def using c p by (intro exI [of _ p1] exI [of _ a1]) simp
  have c21: "\<not> collides h ?i2 a2 (underscores (Suc 0) n)"
    using c by (auto simp: collides_def underscores_def split: if_splits)
  have "settled h ?i2 a2 n (Alias (h2 ! a2))"
    using setRecursiveAlias_result(1) [OF q2] c20 by simp
  from settled_unique [OF this c21] have al2: "Alias (h2 ! a2) = CHR ''_'' # n"
    using c20 by (simp add: underscores_def)
  have f2: "frame a2 h h2" using q2 by (rule setRecursiveAlias_frame(1))
  have c2: "h2 ! a1 = h ! a1" "h2 ! a3 = h ! a3" "Path (h2 ! a2) = p2" "Name (h2 ! a2) = n"
    "length h2 = length h"
    using f2 ne c by (simp_all add: frame_def)
  \<comment> \<open>third import\<close>
  let ?i3 = "[p1 \<mapsto> a1, p2 \<mapsto> a2, p3 \<mapsto> a3]"
  have "(\<exists>pkg'. Packages m' packagePath = Some pkg' \<and> Imports pkg' = ?i2(Path (h2 ! a3) \<mapsto> a3))
         \<and> setRecursiveAlias h2 (?i2(Path (h2 ! a3) \<mapsto> a3)) a3 (Name (h2 ! a3)) h'"
    using AddStruct_single [OF _ v(3), of h2 m2 packagePath n3 h' m' ?i2] r3 s2 s3 k2 c2 c(3) p
    by simp
  then obtain pkg3 where k3: "Packages m' packagePath = Some pkg3" "Imports pkg3 = ?i3"
    and q3: "setRecursiveAlias h2 ?i3 a3 n h'"
    using c(3) c2 by auto
  have c30: "collides h2 ?i3 a3 (underscores 0 n)"
    unfolding collides_def using c c2 p
    by (intro exI [of _ p1] exI [of _ a1]) (simp add: underscores_def)
  have c31: "collides h2 ?i3 a3 (underscores (Suc 0) n)"
    unfolding collides_def using c c2 p al2 ne
    by (intro exI [of _ p2] exI [of _ a2]) (simp add: underscores_def)
  have c32: "\<not> collides h2 ?i3 a3 (underscores (Suc (Suc 0)) n)"
    using c c2 al2 by (auto simp: collides_def underscores_def split: if_splits)
  have upto: "\<forall>j \<le> Suc 0. collides h2 ?i3 a3 (underscores j n)"
    using c30 c31 by (auto simp: le_Suc_eq)
  have "settled h2 ?i3 a3 n (Alias (h' ! a3))"
    using setRecursiveAlias_result(1) [OF q3] c30 by (simp add: underscores_def)
  from settled_unique [OF this c32 upto] have al3: "Alias (h' ! a3) = CHR ''_'' # CHR ''_'' # n"
    by (simp add: underscores_def)
  have f3: "frame a3 h2 h'" using q3 by (rule setRecursiveAlias_frame(1))
  have "Alias (h' ! a1) = []" "Alias (h' ! a2) = CHR ''_'' # n"
    using f3 ne c2 c al2 by (simp_all add: frame_def)
  then show ?thesis using k3 al3 by simp
qed

lemma stringsCalls_facts:
  "valueAddrs (structReturns (valueStruct name a)) = [a]"
  by (simp add: valueStruct_def structReturns_def valueAddrs_def map_filter_simps emptyReturn_def)

lemma stringsCalls_addrs: "callAddrs stringsCalls = [0, 1, 2]"
  by (simp add: callAddrs_def stringsCalls_def stringsCalls_facts)

theorem imports_invariant_witness:
  "distinct (callAddrs stringsCalls)
   \<and> callAddrs stringsCalls = [0, 1, 2]
   \<and> length stringsHeap = 3
   \<and> map Alias stringsHeap = [[], [], []]
   \<and> (\<exists>s' pkg. AddStructs (stringsHeap, NewModel) stringsCalls s'
         \<and> Packages (snd s') ''github.com/test/package1'' = Some pkg
         \<and> Imports pkg = [''github.com/example/strings'' \<mapsto> 0, ''github.com/other/strings'' \<mapsto> 1,
                           ''github.com/another/strings'' \<mapsto> 2]
         \<and> wfImports (fst s') (Imports pkg))"
proof -
  have d: "distinct (callAddrs stringsCalls)" by (simp add: stringsCalls_addrs)
  have l: "length stringsHeap = 3" by (simp add: stringsHeap_def)
  have al: "map Alias stringsHeap = [[], [], []]" by (simp add: stringsHeap_def)
  have hyp: "distinct (callAddrs stringsCalls)
     \<and> (\<forall>a \<in> set (callAddrs stringsCalls). a < length stringsHeap \<and> Alias (stringsHeap ! a) = [])"
    by (simp add: stringsCalls_addrs stringsHeap_def)
  note inv = imports_invariant [of stringsCalls stringsHeap, rule_format, OF hyp]
  from inv obtain h' m' where run: "AddStructs (stringsHeap, NewModel) stringsCalls (h', m')"
    by auto
  have "(\<exists>pkg. Packages m' ''github.com/test/package1'' = Some pkg
            \<and> Imports pkg = [''github.com/example/strings'' \<mapsto> 0, ''github.com/other/strings'' \<mapsto> 1,
                           ''github.com/another/strings'' \<mapsto> 2])
         \<and> Alias (h' ! 0) = [] \<and> Alias (h' ! 1) = CHR ''_'' # ''strings''
         \<and> Alias (h' ! 2) = CHR ''_'' # CHR ''_'' # ''strings''"
    by (rule three_imports [where h = stringsHeap and m = NewModel and n = "''strings''"
          and ?sm1.0 = "valueStruct ''User'' 0" and ?sm2.0 = "valueStruct ''Product'' 1"
          and ?sm3.0 = "valueStruct ''Product'' 2" and ?n1.0 = "''package1''"
          and ?n2.0 = "''package1''" and ?n3.0 = "''package1''"])
       (use run in \<open>simp_all add: stringsHeap_def NewModel_def stringsCalls_facts stringsCalls_def\<close>)
  then obtain pkg where pk: "Packages m' ''github.com/test/package1'' = Some pkg"
    "Imports pkg = [''github.com/example/strings'' \<mapsto> 0, ''github.com/other/strings'' \<mapsto> 1,
                           ''github.com/another/strings'' \<mapsto> 2]"
    by blast
  have "wfImports h' (Imports pkg)" using inv run pk(1) by blast
  then have "\<exists>s' pkg. AddStructs (stringsHeap, NewModel) stringsCalls s'
         \<and> Packages (snd s') ''github.com/test/package1'' = Some pkg
         \<and> Imports pkg = [''github.com/example/strings'' \<mapsto> 0, ''github.com/other/strings'' \<mapsto> 1,
                           ''github.com/another/strings'' \<mapsto> 2]
         \<and> wfImports (fst s') (Imports pkg)"
    using run pk by (intro exI [of _ "(h', m')"] exI [of _ pkg]) simp
  then show ?thesis using d l al stringsCalls_addrs by blast
qed

text \<open>
  C3.  Three calls of \<open>AddStruct\<close> for one new package, each registering one import, the
  three imports having different paths, the package name \<open>strings\<close> and no alias: whatever
  the order in which the renaming walks visit the imports, the first import keeps the
  empty alias, the second gets \<open>_strings\<close> and the third \<open>__strings\<close>; and the calls do run
  to an end.
\<close>

theorem strings_aliases:
  "a1 < length h \<and> a2 < length h \<and> a3 < length h
   \<and> h ! a1 = \<lparr>Path = p1, Name = ''strings'', Alias = []\<rparr>
   \<and> h ! a2 = \<lparr>Path = p2, Name = ''strings'', Alias = []\<rparr>
   \<and> h ! a3 = \<lparr>Path = p3, Name = ''strings'', Alias = []\<rparr>
   \<and> p1 \<noteq> p2 \<and> p1 \<noteq> p3 \<and> p2 \<noteq> p3
   \<and> Packages m packagePath = None
   \<and> valueAddrs (structReturns sm1) = [a1] \<and> valueAddrs (structReturns sm2) = [a2]
   \<and> valueAddrs (structReturns sm3) = [a3] \<longrightarrow>
     (modelAllocated (h, m) \<longrightarrow>
        (\<exists>s'. AddStructs (h, m)
                 [(packagePath, n1, sm1), (packagePath, n2, sm2), (packagePath, n3, sm3)] s'))
     \<and> (\<forall>h' m'. AddStructs (h, m)
                    [(packagePath, n1, sm1), (packagePath, n2, sm2), (packagePath, n3, sm3)] (h', m') \<longrightarrow>
           (\<exists>pkg. Packages m' packagePath = Some pkg
               \<and> Imports pkg = [p1 \<mapsto> a1, p2 \<mapsto> a2, p3 \<mapsto> a3])
           \<and> Alias (h' ! a1) = [] \<and> Alias (h' ! a2) = ''_strings''
           \<and> Alias (h' ! a3) = ''__strings'')"
proof (intro impI)
  assume a: "a1 < length h \<and> a2 < length h \<and> a3 < length h
   \<and> h ! a1 = \<lparr>Path = p1, Name = ''strings'', Alias = []\<rparr>
   \<and> h ! a2 = \<lparr>Path = p2, Name = ''strings'', Alias = []\<rparr>
   \<and> h ! a3 = \<lparr>Path = p3, Name = ''strings'', Alias = []\<rparr>
   \<and> p1 \<noteq> p2 \<and> p1 \<noteq> p3 \<and> p2 \<noteq> p3
   \<and> Packages m packagePath = None
   \<and> valueAddrs (structReturns sm1) = [a1] \<and> valueAddrs (structReturns sm2) = [a2]
   \<and> valueAddrs (structReturns sm3) = [a3]"
  let ?calls = "[(packagePath, n1, sm1), (packagePath, n2, sm2), (packagePath, n3, sm3)]"
  have ca: "callAddrs ?calls = [a1, a2, a3]" using a by (simp add: callAddrs_def)
  have ex: "\<exists>s'. AddStructs (h, m) ?calls s'" if "modelAllocated (h, m)"
    using AddStructs_total [OF that, of ?calls] a ca by simp
  have al: "(\<exists>pkg. Packages m' packagePath = Some pkg
               \<and> Imports pkg = [p1 \<mapsto> a1, p2 \<mapsto> a2, p3 \<mapsto> a3])
           \<and> Alias (h' ! a1) = [] \<and> Alias (h' ! a2) = ''_strings''
           \<and> Alias (h' ! a3) = ''__strings''"
    if "AddStructs (h, m) ?calls (h', m')" for h' m'
    using three_imports [where h = h and m = m and n = "''strings''" and ?a1.0 = a1 and ?a2.0 = a2
        and ?a3.0 = a3 and ?p1.0 = p1 and ?p2.0 = p2 and ?p3.0 = p3, OF _ _ _ _ _ _ _ _ _ _ _ _ _ that]
      a by simp
  show "(modelAllocated (h, m) \<longrightarrow> (\<exists>s'. AddStructs (h, m) ?calls s'))
     \<and> (\<forall>h' m'. AddStructs (h, m) ?calls (h', m') \<longrightarrow>
           (\<exists>pkg. Packages m' packagePath = Some pkg
               \<and> Imports pkg = [p1 \<mapsto> a1, p2 \<mapsto> a2, p3 \<mapsto> a3])
           \<and> Alias (h' ! a1) = [] \<and> Alias (h' ! a2) = ''_strings''
           \<and> Alias (h' ! a3) = ''__strings'')"
    using ex al by blast
qed

theorem strings_aliases_witness:
  "length stringsHeap = 3
   \<and> stringsHeap ! 0 = \<lparr>Path = ''github.com/example/strings'', Name = ''strings'', Alias = []\<rparr>
   \<and> stringsHeap ! 1 = \<lparr>Path = ''github.com/other/strings'', Name = ''strings'', Alias = []\<rparr>
   \<and> stringsHeap ! 2 = \<lparr>Path = ''github.com/another/strings'', Name = ''strings'', Alias = []\<rparr>
   \<and> Packages NewModel ''github.com/test/package1'' = None
   \<and> modelAllocated (stringsHeap, NewModel)
   \<and> (\<exists>h' m'. AddStructs (stringsHeap, NewModel) stringsCalls (h', m')
         \<and> Alias (h' ! 0) = [] \<and> Alias (h' ! 1) = ''_strings'' \<and> Alias (h' ! 2) = ''__strings'')"
proof -
  have l: "length stringsHeap = 3" by (simp add: stringsHeap_def)
  have c: "stringsHeap ! 0 = \<lparr>Path = ''github.com/example/strings'', Name = ''strings'', Alias = []\<rparr>"
    "stringsHeap ! 1 = \<lparr>Path = ''github.com/other/strings'', Name = ''strings'', Alias = []\<rparr>"
    "stringsHeap ! 2 = \<lparr>Path = ''github.com/another/strings'', Name = ''strings'', Alias = []\<rparr>"
    by (simp_all add: stringsHeap_def)
  have n: "Packages NewModel ''github.com/test/package1'' = None" by (simp add: NewModel_def)
  have ma: "modelAllocated (stringsHeap, NewModel)" by (simp add: modelAllocated_def NewModel_def)
  note inst = strings_aliases
    [where h = stringsHeap and m = NewModel and ?a1.0 = 0 and ?a2.0 = 1 and ?a3.0 = 2
       and ?p1.0 = "''github.com/example/strings''" and ?p2.0 = "''github.com/other/strings''"
       and ?p3.0 = "''github.com/another/strings''" and packagePath = "''github.com/test/package1''"
       and ?sm1.0 = "valueStruct ''User'' 0" and ?sm2.0 = "valueStruct ''Product'' 1"
       and ?sm3.0 = "valueStruct ''Product'' 2" and ?n1.0 = "''package1''"
       and ?n2.0 = "''package1''" and ?n3.0 = "''package1''"]
  have both: "(\<exists>s'. AddStructs (stringsHeap, NewModel) stringsCalls s')
     \<and> (\<forall>h' m'. AddStructs (stringsHeap, NewModel) stringsCalls (h', m') \<longrightarrow>
           Alias (h' ! 0) = [] \<and> Alias (h' ! 1) = ''_strings'' \<and> Alias (h' ! 2) = ''__strings'')"
    using inst l c n ma by (simp add: stringsCalls_facts stringsCalls_def)
  then obtain h' m' where "AddStructs (stringsHeap, NewModel) stringsCalls (h', m')" by auto
  then have "\<exists>h' m'. AddStructs (stringsHeap, NewModel) stringsCalls (h', m')
         \<and> Alias (h' ! 0) = [] \<and> Alias (h' ! 1) = ''_strings'' \<and> Alias (h' ! 2) = ''__strings''"
    using both by blast
  then show ?thesis using l c n ma by blast
qed

end
